theory Spec2Isabelle
  imports Complex_Main "HOL-Library.Char_ord" "HOL-Library.List_Lexorder"
begin

section \<open>Errors\<close>

text \<open>
  Every exception that \<^verbatim>\<open>read\<close> or \<^verbatim>\<open>write\<close> of
  \<^verbatim>\<open>ConfigSpace/io/pcs_new.py\<close> and \<^verbatim>\<open>ConfigSpace/io/irace.py\<close> can
  let escape is a constructor here. The first eight are the typed failures of the
  specification, named after the raise site in the source:
  \<^item> \<open>UnparsableConditionError\<close>: \<^verbatim>\<open>NotImplementedError("Could not parse condition: ...")\<close>;
  \<^item> \<open>UnparsableParameterError\<close>: \<^verbatim>\<open>NotImplementedError("Could not parse: ...")\<close>;
  \<^item> \<open>UnsupportedForbiddenOperatorError\<close>: the bare \<^verbatim>\<open>NotImplementedError()\<close> of the
    forbidden loop;
  \<^item> \<open>IllegalNameError\<close>: \<^verbatim>\<open>ValueError("Illegal hyperparameter name ...")\<close>;
  \<^item> \<open>UnsupportedConstructError\<close>: \<^verbatim>\<open>NotImplementedError("IRACE cannot handle ...")\<close>;
  \<^item> \<open>DuplicateNameError\<close>, \<open>UnknownNameError\<close>, \<open>ValidationError\<close>: raised by the
    configuration-space container and the constructors.
  The others are the untyped run-time errors of Python and of the parser library.
\<close>

datatype error =
    UnparsableConditionError string
  | UnparsableParameterError string
  | UnsupportedForbiddenOperatorError
  | IllegalNameError string
  | UnsupportedConstructError
  | DuplicateNameError
  | UnknownNameError
  | ValidationError
  | ParseException
  | ValueError
  | IndexError
  | UnboundLocalError
  | AttributeError
  | TypeError

fun typed_error :: "error \<Rightarrow> bool" where
  "typed_error (UnparsableConditionError l) = True"
| "typed_error (UnparsableParameterError l) = True"
| "typed_error UnsupportedForbiddenOperatorError = True"
| "typed_error (IllegalNameError n) = True"
| "typed_error UnsupportedConstructError = True"
| "typed_error DuplicateNameError = True"
| "typed_error UnknownNameError = True"
| "typed_error ValidationError = True"
| "typed_error e = False"

section \<open>The parser library\<close>

text \<open>
  The grammars of both modules are \<^verbatim>\<open>pyparsing\<close> expressions. An expression is run
  by \<^verbatim>\<open>parseString\<close>, which matches a prefix of its input (the source never asks
  for \<^verbatim>\<open>parseAll\<close>) and returns the list of matched tokens. A parser of the model
  takes the input and returns the tokens and the rest of the input, or \<open>None\<close> where
  the library raises \<^verbatim>\<open>ParseException\<close>.

  Every expression skips leading white space (blank, newline, tab, carriage return)
  before it matches, except inside \<^verbatim>\<open>Combine\<close>, whose parts must be adjacent: the
  flag \<open>skip\<close> of \<open>Word\<close>, \<open>Literal\<close> and \<open>Combine\<close> says which of the two holds.
\<close>

type_synonym tokens = "string list"
type_synonym parser = "string \<Rightarrow> (tokens \<times> string) option"

definition pp_white :: string where
  "pp_white = [CHR '' '', CHR 0x0A, CHR 0x09, CHR 0x0D]"

definition skip_ws :: "bool \<Rightarrow> string \<Rightarrow> string" where
  "skip_ws skip s = (if skip then dropWhile (\<lambda>c. c \<in> set pp_white) s else s)"

definition Word :: "bool \<Rightarrow> string \<Rightarrow> parser" where
  "Word skip cs s =
     (let s' = skip_ws skip s; w = takeWhile (\<lambda>c. c \<in> set cs) s'
      in if w = [] then None else Some ([w], dropWhile (\<lambda>c. c \<in> set cs) s'))"

definition Literal :: "bool \<Rightarrow> string \<Rightarrow> parser" where
  "Literal skip l s =
     (let s' = skip_ws skip s
      in if take (length l) s' = l then Some ([l], drop (length l) s') else None)"

fun And :: "parser list \<Rightarrow> parser" where
  "And [] s = Some ([], s)"
| "And (p # ps) s =
     (case p s of
        None \<Rightarrow> None
      | Some (ts, r) \<Rightarrow>
          (case And ps r of None \<Rightarrow> None | Some (us, r') \<Rightarrow> Some (ts @ us, r')))"

fun MatchFirst :: "parser list \<Rightarrow> parser" where
  "MatchFirst [] s = None"
| "MatchFirst (p # ps) s = (case p s of None \<Rightarrow> MatchFirst ps s | Some r \<Rightarrow> Some r)"

definition Optional :: "parser \<Rightarrow> parser" where
  "Optional p s = (case p s of None \<Rightarrow> Some ([], s) | Some r \<Rightarrow> Some r)"

text \<open>
  The repetition of \<^verbatim>\<open>OneOrMore\<close> goes on until the expression fails. Every
  expression repeated in the source begins with a literal, so each round consumes input;
  the model stops as well should a round consume nothing.
\<close>

function repeat_expr :: "parser \<Rightarrow> string \<Rightarrow> tokens \<times> string" where
  "repeat_expr p s =
     (case p s of
        None \<Rightarrow> ([], s)
      | Some (ts, r) \<Rightarrow>
          if length r < length s
          then (case repeat_expr p r of (us, r') \<Rightarrow> (ts @ us, r'))
          else (ts, r))"
  by pat_completeness auto
termination
  by (relation "measure (\<lambda>(p, s). length s)") auto

definition OneOrMore :: "parser \<Rightarrow> parser" where
  "OneOrMore p s =
     (case p s of
        None \<Rightarrow> None
      | Some (ts, r) \<Rightarrow> (case repeat_expr p r of (us, r') \<Rightarrow> Some (ts @ us, r')))"

definition Combine :: "bool \<Rightarrow> parser \<Rightarrow> parser" where
  "Combine skip p s =
     (case p (skip_ws skip s) of None \<Rightarrow> None | Some (ts, r) \<Rightarrow> Some ([concat ts], r))"

definition parseString :: "parser \<Rightarrow> string \<Rightarrow> tokens option" where
  "parseString p s = map_option fst (p s)"

section \<open>Lexical grammar\<close>

text \<open>The token patterns shared by both modules, in the order the source builds them.\<close>

definition alphas :: string where
  "alphas = ''ABCDEFGHIJKLMNOPQRSTUVWXYZabcdefghijklmnopqrstuvwxyz''"

definition pp_digits :: string where
  "pp_digits = ''0123456789''"

definition alphanums :: string where
  "alphanums = alphas @ pp_digits"

definition name_chars :: string where
  "name_chars = alphanums @ ''_-@.:;'' @ [CHR 0x5C] @ ''/?!$%&*+<>''"

definition pp_param_name :: parser where
  "pp_param_name = Word True name_chars"

definition pp_plusorminus :: "bool \<Rightarrow> parser" where
  "pp_plusorminus skip = MatchFirst [Literal skip ''+'', Literal skip ''-'']"

definition pp_int :: "bool \<Rightarrow> parser" where
  "pp_int skip = Combine skip (And [Optional (pp_plusorminus False), Word False pp_digits])"

definition pp_float :: "bool \<Rightarrow> parser" where
  "pp_float skip =
     Combine skip (And [Optional (pp_plusorminus False), Optional (pp_int False),
                         Literal False ''.'', pp_int False])"

definition pp_eorE :: "bool \<Rightarrow> parser" where
  "pp_eorE skip = MatchFirst [Literal skip ''e'', Literal skip ''E'']"

definition pp_floatorint :: "bool \<Rightarrow> parser" where
  "pp_floatorint skip = MatchFirst [pp_float skip, pp_int skip]"

definition pp_e_notation :: "bool \<Rightarrow> parser" where
  "pp_e_notation skip =
     Combine skip (And [pp_floatorint False, pp_eorE False, pp_int False])"

definition pp_number :: parser where
  "pp_number = MatchFirst [pp_e_notation True, pp_float True, pp_int True]"

definition pp_numberorname :: parser where
  "pp_numberorname = MatchFirst [pp_number, pp_param_name]"

definition pp_choices :: parser where
  "pp_choices =
     And [pp_param_name, Optional (OneOrMore (And [Literal True '','', pp_param_name]))]"

definition pp_forbidden_clause :: parser where
  "pp_forbidden_clause =
     And [Literal True ''{'', pp_param_name, Literal True ''='', pp_numberorname,
           Optional (OneOrMore (And [Literal True '','', pp_param_name,
                                      Literal True ''='', pp_numberorname])),
           Literal True ''}'']"

section \<open>Domain model\<close>

text \<open>
  Floating point is not modelled: the numbers of the source are values of a type \<open>'n\<close>,
  and the operations the two modules use on them are taken as a parameter:
  \<open>py_float\<close> is \<^verbatim>\<open>float(token)\<close> (\<open>None\<close> where it raises \<^verbatim>\<open>ValueError\<close>),
  \<open>py_str\<close> is \<^verbatim>\<open>str(x)\<close>, \<open>fmt_d\<close> is \<^verbatim>\<open>"%d" % x\<close>, and \<open>num_less\<close>,
  \<open>num_le\<close> are the comparisons of the range check.
\<close>

record 'n numerics =
  py_float :: "string \<Rightarrow> 'n option"
  py_str :: "'n \<Rightarrow> string"
  fmt_d :: "'n \<Rightarrow> string"
  num_less :: "'n \<Rightarrow> 'n \<Rightarrow> bool"
  num_le :: "'n \<Rightarrow> 'n \<Rightarrow> bool"

text \<open>
  The classes of \<^verbatim>\<open>ConfigSpace.hyperparameters\<close>, \<^verbatim>\<open>ConfigSpace.conditions\<close>,
  \<^verbatim>\<open>ConfigSpace.forbidden\<close> and \<^verbatim>\<open>ConfigSpace.configuration_space\<close> are imported
  by both modules. The data types follow the data model of the specification. Values of
  categorical choices, of conditions and of forbidden clauses are strings (what
  \<^verbatim>\<open>%s\<close> prints). A condition or forbidden clause refers to its hyperparameters as
  the Python objects do, by holding them.
\<close>

datatype 'n hyperparameter =
    Continuous string 'n 'n 'n bool bool "'n option"
  | Categorical string "string list" string
  | Constant string string

fun name :: "'n hyperparameter \<Rightarrow> string" where
  "name (Continuous n lo hi d i l q) = n"
| "name (Categorical n cs d) = n"
| "name (Constant n v) = n"

datatype 'n condition =
    EqualsCondition "'n hyperparameter" "'n hyperparameter" string
  | NotEqualsCondition "'n hyperparameter" "'n hyperparameter" string
  | InCondition "'n hyperparameter" "'n hyperparameter" "string list"
  | AndConjunction "'n condition list"
  | OrConjunction "'n condition list"

datatype 'n forbidden =
    ForbiddenEqualsClause "'n hyperparameter" string
  | ForbiddenInClause "'n hyperparameter" "string list"
  | ForbiddenAndConjunction "'n forbidden list"

record 'n configuration_space =
  hyperparameters :: "'n hyperparameter list"
  conditions :: "'n condition list"
  forbidden_clauses :: "'n forbidden list"

definition ConfigurationSpace :: "'n configuration_space" where
  "ConfigurationSpace = \<lparr>hyperparameters = [], conditions = [], forbidden_clauses = []\<rparr>"

text \<open>
  Modelled from the spec: the constructors of the hyperparameter classes, which are not
  among the source files. A continuous hyperparameter needs \<open>lower < upper\<close> and
  \<open>lower \<le> default \<le> upper\<close>; a categorical one a non-empty sequence of distinct
  choices that holds the default; a failure is \<open>ValidationError\<close>. Names are not
  checked here: the specification has the space accept names that a dialect rejects.
\<close>

definition UniformIntegerHyperparameter ::
  "'n numerics \<Rightarrow> string \<Rightarrow> 'n \<Rightarrow> 'n \<Rightarrow> 'n option \<Rightarrow> bool \<Rightarrow> 'n \<Rightarrow> error + 'n hyperparameter" where
  "UniformIntegerHyperparameter N n lo hi q l d =
     (if num_less N lo hi \<and> num_le N lo d \<and> num_le N d hi
      then Inr (Continuous n lo hi d True l q) else Inl ValidationError)"

definition UniformFloatHyperparameter ::
  "'n numerics \<Rightarrow> string \<Rightarrow> 'n \<Rightarrow> 'n \<Rightarrow> 'n option \<Rightarrow> bool \<Rightarrow> 'n \<Rightarrow> error + 'n hyperparameter" where
  "UniformFloatHyperparameter N n lo hi q l d =
     (if num_less N lo hi \<and> num_le N lo d \<and> num_le N d hi
      then Inr (Continuous n lo hi d False l q) else Inl ValidationError)"

definition CategoricalHyperparameter ::
  "string \<Rightarrow> string list \<Rightarrow> string \<Rightarrow> error + 'n hyperparameter" where
  "CategoricalHyperparameter n cs d =
     (if cs \<noteq> [] \<and> distinct cs \<and> d \<in> set cs
      then Inr (Categorical n cs d) else Inl ValidationError)"

text \<open>
  Modelled from the spec: the constructors of the three condition leaves, not among the
  source files. The invariant of a condition is that child and parent differ.
\<close>

definition new_condition ::
  "('n hyperparameter \<Rightarrow> 'n hyperparameter \<Rightarrow> 'v \<Rightarrow> 'n condition) \<Rightarrow>
   'n hyperparameter \<Rightarrow> 'n hyperparameter \<Rightarrow> 'v \<Rightarrow> error + 'n condition" where
  "new_condition C child parent v =
     (if name child = name parent then Inl ValidationError else Inr (C child parent v))"

text \<open>
  Modelled from the spec: the operations of the configuration space, not among the
  source files. \<open>add_hyperparameter\<close> fails with \<open>DuplicateNameError\<close> on a name
  already present and never overwrites; \<open>get_hyperparameter\<close> fails with
  \<open>UnknownNameError\<close>; \<open>add_condition\<close> and \<open>add_forbidden_clause\<close> append to the
  ordered sequences of the space.
\<close>

definition add_hyperparameter ::
  "'n configuration_space \<Rightarrow> 'n hyperparameter \<Rightarrow> error + 'n configuration_space" where
  "add_hyperparameter cs h =
     (if name h \<in> set (map name (hyperparameters cs)) then Inl DuplicateNameError
      else Inr (cs\<lparr>hyperparameters := hyperparameters cs @ [h]\<rparr>))"

definition get_hyperparameter ::
  "'n configuration_space \<Rightarrow> string \<Rightarrow> error + 'n hyperparameter" where
  "get_hyperparameter cs n =
     (case find (\<lambda>h. name h = n) (hyperparameters cs) of
        None \<Rightarrow> Inl UnknownNameError
      | Some h \<Rightarrow> Inr h)"

definition add_condition ::
  "'n configuration_space \<Rightarrow> 'n condition \<Rightarrow> 'n configuration_space" where
  "add_condition cs c = cs\<lparr>conditions := conditions cs @ [c]\<rparr>"

definition add_forbidden_clause ::
  "'n configuration_space \<Rightarrow> 'n forbidden \<Rightarrow> 'n configuration_space" where
  "add_forbidden_clause cs f = cs\<lparr>forbidden_clauses := forbidden_clauses cs @ [f]\<rparr>"

text \<open>
  Modelled from the spec: \<^verbatim>\<open>get_descendant_literal_clauses\<close>, not among the source
  files, gives the atomic clauses below a forbidden clause, in order.
\<close>

fun get_descendant_literal_clauses :: "'n forbidden \<Rightarrow> 'n forbidden list" where
  "get_descendant_literal_clauses (ForbiddenEqualsClause h v) = [ForbiddenEqualsClause h v]"
| "get_descendant_literal_clauses (ForbiddenInClause h vs) = [ForbiddenInClause h vs]"
| "get_descendant_literal_clauses (ForbiddenAndConjunction fs) =
     concat (map get_descendant_literal_clauses fs)"

section \<open>Python helpers\<close>

text \<open>\<^verbatim>\<open>sep.join(xs)\<close>.\<close>

fun join :: "string \<Rightarrow> string list \<Rightarrow> string" where
  "join sep [] = []"
| "join sep [x] = x"
| "join sep (x # y # ys) = x @ sep @ join sep (y # ys)"

text \<open>A loop whose body may raise: the first error ends it.\<close>

fun map_err :: "('a \<Rightarrow> error + 'b) \<Rightarrow> 'a list \<Rightarrow> error + 'b list" where
  "map_err f [] = Inr []"
| "map_err f (x # xs) =
     (case f x of
        Inl e \<Rightarrow> Inl e
      | Inr y \<Rightarrow> (case map_err f xs of Inl e \<Rightarrow> Inl e | Inr ys \<Rightarrow> Inr (y # ys)))"

section \<open>Forbidden clauses on write\<close>

text \<open>
  \<^verbatim>\<open>build_forbidden\<close> writes \<^verbatim>\<open>{\<close>, then \<^verbatim>\<open>name=value\<close> for each atomic clause,
  with \<^verbatim>\<open>", "\<close> before it once the buffer is longer than one character, then
  \<^verbatim>\<open>}\<close>. Only an equals clause has the attribute \<^verbatim>\<open>value\<close>.
\<close>

fun literal_text :: "'n forbidden \<Rightarrow> error + string" where
  "literal_text (ForbiddenEqualsClause h v) = Inr (name h @ ''='' @ v)"
| "literal_text (ForbiddenInClause h vs) = Inl AttributeError"
| "literal_text (ForbiddenAndConjunction fs) = Inl AttributeError"

fun build_forbidden_loop :: "'n forbidden list \<Rightarrow> string \<Rightarrow> error + string" where
  "build_forbidden_loop [] retval = Inr retval"
| "build_forbidden_loop (dlc # dlcs) retval =
     (case literal_text dlc of
        Inl e \<Rightarrow> Inl e
      | Inr t \<Rightarrow>
          build_forbidden_loop dlcs ((if length retval > 1 then retval @ '', '' else retval) @ t))"

definition pcs_build_forbidden :: "'n forbidden \<Rightarrow> error + string" where
  "pcs_build_forbidden clause =
     (case build_forbidden_loop (get_descendant_literal_clauses clause) ''{'' of
        Inl e \<Rightarrow> Inl e
      | Inr retval \<Rightarrow> Inr (retval @ ''}''))"

text \<open>
  In \<^verbatim>\<open>irace.py\<close> the function first refuses a clause that is neither an equals
  clause nor a conjunction; building the message of that refusal applies \<^verbatim>\<open>%\<close> to a
  format of two places and one argument, which is a \<^verbatim>\<open>TypeError\<close>.
\<close>

fun irace_build_forbidden :: "'n forbidden \<Rightarrow> error + string" where
  "irace_build_forbidden (ForbiddenInClause h vs) = Inl TypeError"
| "irace_build_forbidden clause = pcs_build_forbidden clause"

text \<open>
  The loop of \<^verbatim>\<open>write\<close> over the forbidden clauses is the same in both modules.
  \<open>split_statements\<close> is its first inner loop: each membership clause becomes the list
  of its equals clauses, one per value, in \<open>in_statements\<close>; every other atomic clause
  goes to \<open>other_statements\<close>. \<^verbatim>\<open>itertools.product\<close> is \<open>product_lists\<close>.
\<close>

fun split_statements :: "'n forbidden list \<Rightarrow> 'n forbidden list list \<times> 'n forbidden list" where
  "split_statements [] = ([], [])"
| "split_statements (ForbiddenInClause h vs # dlcs) =
     (case split_statements dlcs of
        (in_statements, other_statements) \<Rightarrow>
          (map (ForbiddenEqualsClause h) vs # in_statements, other_statements))"
| "split_statements (dlc # dlcs) =
     (case split_statements dlcs of
        (in_statements, other_statements) \<Rightarrow> (in_statements, dlc # other_statements))"

definition clause_lines ::
  "('n forbidden \<Rightarrow> error + string) \<Rightarrow> 'n forbidden \<Rightarrow> error + string list" where
  "clause_lines build forbidden_clause =
     (case split_statements (get_descendant_literal_clauses forbidden_clause) of
        (in_statements, other_statements) \<Rightarrow>
          if length in_statements > 0
          then map_err (\<lambda>p. build (ForbiddenAndConjunction (p @ other_statements)))
                 (product_lists in_statements)
          else map_err build [forbidden_clause])"

fun forbidden_lines ::
  "('n forbidden \<Rightarrow> error + string) \<Rightarrow> 'n forbidden list \<Rightarrow> error + string list" where
  "forbidden_lines build [] = Inr []"
| "forbidden_lines build (f # fs) =
     (case clause_lines build f of
        Inl e \<Rightarrow> Inl e
      | Inr ls \<Rightarrow> (case forbidden_lines build fs of Inl e \<Rightarrow> Inl e | Inr ls' \<Rightarrow> Inr (ls @ ls')))"

section \<open>The explicit dialect: write\<close>

definition pcs_build_categorical :: "string \<Rightarrow> string list \<Rightarrow> string \<Rightarrow> string" where
  "pcs_build_categorical n choices d = n @ '' categorical {'' @ join '', '' choices @ ''} ['' @ d @ '']''"

definition pcs_build_constant :: "string \<Rightarrow> string \<Rightarrow> string" where
  "pcs_build_constant n v = n @ '' {'' @ v @ ''} ['' @ v @ '']''"

definition q_prefix :: "'n numerics \<Rightarrow> 'n option \<Rightarrow> string" where
  "q_prefix N q = (case q of None \<Rightarrow> [] | Some x \<Rightarrow> ''Q'' @ fmt_d N x @ ''_'')"

definition pcs_build_continuous ::
  "'n numerics \<Rightarrow> string \<Rightarrow> 'n \<Rightarrow> 'n \<Rightarrow> 'n \<Rightarrow> bool \<Rightarrow> bool \<Rightarrow> 'n option \<Rightarrow> string" where
  "pcs_build_continuous N n lo hi d is_int lg q =
     (if is_int
      then q_prefix N q @ n @ '' integer ['' @ fmt_d N lo @ '', '' @ fmt_d N hi @ ''] [''
           @ fmt_d N d @ '']'' @ (if lg then ''log'' else [])
      else q_prefix N q @ n @ '' real ['' @ py_str N lo @ '', '' @ py_str N hi @ ''] [''
           @ py_str N d @ '']'' @ (if lg then ''log'' else []))"

fun pcs_build_hyperparameter :: "'n numerics \<Rightarrow> 'n hyperparameter \<Rightarrow> string" where
  "pcs_build_hyperparameter N (Continuous n lo hi d i l q) = pcs_build_continuous N n lo hi d i l q"
| "pcs_build_hyperparameter N (Categorical n cs d) = pcs_build_categorical n cs d"
| "pcs_build_hyperparameter N (Constant n v) = pcs_build_constant n v"

text \<open>
  \<^verbatim>\<open>build_condition\<close> of \<^verbatim>\<open>pcs_new.py\<close> has a branch for each of the three leaves
  and none for a conjunction, for which it returns \<^verbatim>\<open>None\<close>.
\<close>

fun pcs_build_condition :: "'n condition \<Rightarrow> string option" where
  "pcs_build_condition (NotEqualsCondition c p v) = Some (name c @ '' | '' @ name p @ '' {'' @ v @ ''}'')"
| "pcs_build_condition (InCondition c p vs) =
     Some (name c @ '' | '' @ name p @ '' {'' @ join '', '' vs @ ''}'')"
| "pcs_build_condition (EqualsCondition c p v) = Some (name c @ '' | '' @ name p @ '' {'' @ v @ ''}'')"
| "pcs_build_condition (AndConjunction cs) = None"
| "pcs_build_condition (OrConjunction cs) = None"

text \<open>
  The first loop of \<^verbatim>\<open>write\<close>: each name is checked by
  \<^verbatim>\<open>pp_param_name.parseString\<close>, then the declaration is written to
  \<^verbatim>\<open>param_lines\<close>, after a newline when the buffer is not empty.
\<close>

fun write_params ::
  "('n hyperparameter \<Rightarrow> string) \<Rightarrow> 'n hyperparameter list \<Rightarrow> string \<Rightarrow> error + string" where
  "write_params build [] param_lines = Inr param_lines"
| "write_params build (h # hs) param_lines =
     (case parseString pp_param_name (name h) of
        None \<Rightarrow> Inl (IllegalNameError (name h))
      | Some ts \<Rightarrow>
          write_params build hs
            ((if length param_lines > 0 then param_lines @ [CHR 0x0A] else param_lines) @ build h))"

text \<open>
  The second loop. The module is Python 2 code (\<^verbatim>\<open>irace.py\<close> subscripts the result
  of \<^verbatim>\<open>filter\<close>): writing \<^verbatim>\<open>None\<close> to a \<^verbatim>\<open>StringIO\<close> writes nothing.
\<close>

fun pcs_write_conditions :: "'n condition list \<Rightarrow> string \<Rightarrow> string" where
  "pcs_write_conditions [] condition_lines = condition_lines"
| "pcs_write_conditions (c # cs) condition_lines =
     pcs_write_conditions cs
       ((if length condition_lines > 0 then condition_lines @ [CHR 0x0A] else condition_lines)
        @ (case pcs_build_condition c of None \<Rightarrow> [] | Some t \<Rightarrow> t))"

definition forbidden_block :: "string list \<Rightarrow> string" where
  "forbidden_block ls =
     (if length ls > 0
      then [CHR 0x0A, CHR 0x0A] @ concat (map (\<lambda>l. l @ [CHR 0x0A]) (sort ls))
      else [])"

definition pcs_write :: "'n numerics \<Rightarrow> 'n configuration_space \<Rightarrow> error + string" where
  "pcs_write N configuration_space =
     (case write_params (pcs_build_hyperparameter N) (hyperparameters configuration_space) [] of
        Inl e \<Rightarrow> Inl e
      | Inr param_lines \<Rightarrow>
          (let condition_lines = pcs_write_conditions (conditions configuration_space) []
           in case forbidden_lines pcs_build_forbidden (forbidden_clauses configuration_space) of
                Inl e \<Rightarrow> Inl e
              | Inr ls \<Rightarrow>
                  Inr (param_lines
                       @ (if length condition_lines > 0
                          then [CHR 0x0A, CHR 0x0A] @ condition_lines else [])
                       @ forbidden_block ls)))"

section \<open>The compact dialect: write\<close>

text \<open>More of Python: \<^verbatim>\<open>s.split(c)\<close> for a separator of one character, the lines a
  \<^verbatim>\<open>StringIO\<close> gives when iterated (each with its newline), \<^verbatim>\<open>sub in s\<close> on
  strings, and \<^verbatim>\<open>xs.index(x)\<close>.\<close>

fun split :: "char \<Rightarrow> string \<Rightarrow> string list" where
  "split c [] = [[]]"
| "split c (x # xs) =
     (if x = c then [] # split c xs
      else (case split c xs of [] \<Rightarrow> [[x]] | w # ws \<Rightarrow> (x # w) # ws))"

fun io_lines :: "string \<Rightarrow> string list" where
  "io_lines [] = []"
| "io_lines (x # xs) =
     (if x = CHR 0x0A then [x] # io_lines xs
      else (case io_lines xs of [] \<Rightarrow> [[x]] | l # ls \<Rightarrow> (x # l) # ls))"

fun contains :: "string \<Rightarrow> string \<Rightarrow> bool" where
  "contains sub [] = (sub = [])"
| "contains sub (x # xs) = (take (length sub) (x # xs) = sub \<or> contains sub xs)"

fun index :: "'a list \<Rightarrow> 'a \<Rightarrow> nat" where
  "index [] y = 0"
| "index (x # xs) y = (if x = y then 0 else Suc (index xs y))"

definition quote :: string where
  "quote = [CHR 0x27]"

definition irace_build_categorical :: "string \<Rightarrow> string list \<Rightarrow> string" where
  "irace_build_categorical n choices =
     n @ '' '' @ quote @ ''--'' @ n @ '' '' @ quote @ '' c ('' @ join '','' choices @ '')''"

definition irace_build_constant :: "string \<Rightarrow> string \<Rightarrow> string" where
  "irace_build_constant n v = n @ '' '' @ quote @ ''--'' @ n @ '' '' @ quote @ '' c ('' @ v @ '')''"

text \<open>The prefix for a quantization and the integer default are computed by
  \<^verbatim>\<open>build_continuous\<close> of \<^verbatim>\<open>irace.py\<close> and not used; neither the default nor the
  scale is written.\<close>

definition irace_build_continuous :: "'n numerics \<Rightarrow> string \<Rightarrow> 'n \<Rightarrow> 'n \<Rightarrow> bool \<Rightarrow> string" where
  "irace_build_continuous N n lo hi is_int =
     (if is_int
      then n @ '' '' @ quote @ ''--'' @ n @ '' '' @ quote @ '' i ('' @ fmt_d N lo @ '', ''
           @ fmt_d N hi @ '')''
      else n @ '' '' @ quote @ ''--'' @ n @ '' '' @ quote @ '' r ('' @ py_str N lo @ '', ''
           @ py_str N hi @ '') '')"

fun irace_build_hyperparameter :: "'n numerics \<Rightarrow> 'n hyperparameter \<Rightarrow> string" where
  "irace_build_hyperparameter N (Continuous n lo hi d i l q) = irace_build_continuous N n lo hi i"
| "irace_build_hyperparameter N (Categorical n cs d) = irace_build_categorical n cs"
| "irace_build_hyperparameter N (Constant n v) = irace_build_constant n v"

text \<open>
  \<^verbatim>\<open>build_condition\<close> of \<^verbatim>\<open>irace.py\<close> refuses an OR-conjunction and a not-equals
  condition, then reads \<^verbatim>\<open>condition.parent\<close> for the type letter. A conjunction of
  the data model has components and no parent, so for an AND-conjunction that read is
  an \<^verbatim>\<open>AttributeError\<close>, before the branch that would refuse it.
\<close>

fun pType :: "'n hyperparameter \<Rightarrow> string" where
  "pType (Categorical n cs d) = ''c''"
| "pType (Continuous n lo hi d is_int l q) = (if is_int then ''i'' else ''r'')"
| "pType (Constant n v) = ''i''"

fun irace_build_condition :: "'n condition \<Rightarrow> error + string" where
  "irace_build_condition (OrConjunction cs) = Inl UnsupportedConstructError"
| "irace_build_condition (NotEqualsCondition c p v) = Inl UnsupportedConstructError"
| "irace_build_condition (AndConjunction cs) = Inl AttributeError"
| "irace_build_condition (InCondition c p vs) =
     Inr (name c @ '' | '' @ name p @ '' %in% '' @ pType p @ ''('' @ join '', '' vs @ '') '')"
| "irace_build_condition (EqualsCondition c p v) =
     Inr (name c @ '' | '' @ name p @ '' %in% '' @ pType p @ ''('' @ v @ '') '')"

fun irace_write_conditions :: "'n condition list \<Rightarrow> string \<Rightarrow> error + string" where
  "irace_write_conditions [] condition_lines = Inr condition_lines"
| "irace_write_conditions (c # cs) condition_lines =
     (case irace_build_condition c of
        Inl e \<Rightarrow> Inl e
      | Inr t \<Rightarrow>
          irace_write_conditions cs
            ((if length condition_lines > 0 then condition_lines @ [CHR 0x0A]
              else condition_lines) @ t))"

text \<open>
  The splice: for each line of the condition text, the first declaration that contains
  the line's first blank-separated piece gets the rest of the line appended, its pieces
  joined by two blanks. \<^verbatim>\<open>filter(...)[0]\<close> is an \<^verbatim>\<open>IndexError\<close> when no
  declaration contains the piece.
\<close>

fun splice :: "string list \<Rightarrow> string list \<Rightarrow> error + string list" where
  "splice [] splitted_params = Inr splitted_params"
| "splice (line # ls) splitted_params =
     (case filter (contains (hd (split CHR '' '' line))) splitted_params of
        [] \<Rightarrow> Inl IndexError
      | t # ts \<Rightarrow>
          (let i = index splitted_params t
           in splice ls
                (splitted_params[i := splitted_params ! i @ join ''  '' (tl (split CHR '' '' line))])))"

text \<open>The last loop ends every entry with a newline; \<^verbatim>\<open>j[-1]\<close> on an empty entry is
  an \<^verbatim>\<open>IndexError\<close>.\<close>

fun terminate_lines :: "string list \<Rightarrow> error + string list" where
  "terminate_lines [] = Inr []"
| "terminate_lines (j # js) =
     (if j = [] then Inl IndexError
      else (case terminate_lines js of
              Inl e \<Rightarrow> Inl e
            | Inr ls \<Rightarrow> Inr ((if last j \<noteq> CHR 0x0A then j @ [CHR 0x0A] else j) # ls)))"

text \<open>
  \<^verbatim>\<open>write\<close> of \<^verbatim>\<open>irace.py\<close>. The forbidden loop fills \<^verbatim>\<open>forbidden_lines\<close>;
  the block that would write them is commented out in the source, so the list is
  dropped.
\<close>

definition irace_write :: "'n numerics \<Rightarrow> 'n configuration_space \<Rightarrow> error + string" where
  "irace_write N configuration_space =
     (case write_params (irace_build_hyperparameter N) (hyperparameters configuration_space) [] of
        Inl e \<Rightarrow> Inl e
      | Inr param_lines \<Rightarrow>
          (case irace_write_conditions (conditions configuration_space) [] of
             Inl e \<Rightarrow> Inl e
           | Inr condition_lines \<Rightarrow>
               (case forbidden_lines irace_build_forbidden (forbidden_clauses configuration_space) of
                  Inl e \<Rightarrow> Inl e
                | Inr ls \<Rightarrow>
                    (case splice (if length condition_lines > 0 then io_lines condition_lines else [])
                            (split (CHR 0x0A) param_lines) of
                       Inl e \<Rightarrow> Inl e
                     | Inr splitted_params \<Rightarrow>
                         (case terminate_lines splitted_params of
                            Inl e \<Rightarrow> Inl e
                          | Inr ls' \<Rightarrow> Inr (concat ls'))))))"

section \<open>Reading: what both modules share\<close>

text \<open>Sequencing of steps that may raise, and Python's indexing and slicing:
  \<^verbatim>\<open>xs[i]\<close> raises \<^verbatim>\<open>IndexError\<close> out of range, \<^verbatim>\<open>xs[i:-k:2]\<close> takes every
  second element from index \<open>i\<close> up to, and without, the last \<open>k\<close>.\<close>

definition bind_err :: "error + 'a \<Rightarrow> ('a \<Rightarrow> error + 'b) \<Rightarrow> error + 'b" where
  "bind_err m f = (case m of Inl e \<Rightarrow> Inl e | Inr x \<Rightarrow> f x)"

definition item :: "'a list \<Rightarrow> nat \<Rightarrow> error + 'a" where
  "item xs i = (if i < length xs then Inr (xs ! i) else Inl IndexError)"

fun every_second :: "'a list \<Rightarrow> 'a list" where
  "every_second [] = []"
| "every_second [x] = [x]"
| "every_second (x # y # zs) = x # every_second zs"

definition slice2 :: "'a list \<Rightarrow> nat \<Rightarrow> nat \<Rightarrow> 'a list" where
  "slice2 xs i k = every_second (drop i (take (length xs - k) xs))"

text \<open>
  The head of the loop over the lines: a comment is cut off at the first \<^verbatim>\<open>#\<close>, both
  quote characters are removed, and \<^verbatim>\<open>strip\<close> removes the white space at both ends
  (of a Python 2 string: blank, tab, newline, vertical tab, form feed, carriage return).
\<close>

definition py_space :: string where
  "py_space = [CHR '' '', CHR 0x09, CHR 0x0A, CHR 0x0B, CHR 0x0C, CHR 0x0D]"

definition strip :: "string \<Rightarrow> string" where
  "strip s = rev (dropWhile (\<lambda>c. c \<in> set py_space) (rev (dropWhile (\<lambda>c. c \<in> set py_space) s)))"

definition clean_line :: "string \<Rightarrow> string" where
  "clean_line line =
     strip (filter (\<lambda>c. c \<noteq> CHR 0x22 \<and> c \<noteq> CHR 0x27) (takeWhile (\<lambda>c. c \<noteq> CHR ''#'') line))"

definition startswith :: "string \<Rightarrow> string \<Rightarrow> bool" where
  "startswith s p = (take (length p) s = p)"

definition endswith :: "string \<Rightarrow> string \<Rightarrow> bool" where
  "endswith s p = (length p \<le> length s \<and> drop (length s - length p) s = p)"

text \<open>What the first loop collects: the space under construction, the parsed
  condition lines and the forbidden lines kept for later.\<close>

record 'n read_state =
  configuration_space :: "'n configuration_space"
  condition_list :: "tokens list"
  forbidden_list :: "string list"

text \<open>
  The body of the first loop, the same in both modules but for the three grammars and
  the decoding of the tokens of a declaration, which are its parameters. Both grammars
  are tried, the continuous one first; only \<^verbatim>\<open>ParseException\<close> is caught, so any other
  error of a decoding ends the read.
\<close>

definition read_line ::
  "parser \<Rightarrow> parser \<Rightarrow> parser \<Rightarrow> (tokens \<Rightarrow> error + 'n hyperparameter) \<Rightarrow>
   (tokens \<Rightarrow> error + 'n hyperparameter) \<Rightarrow> 'n read_state \<Rightarrow> string \<Rightarrow> error + 'n read_state" where
  "read_line pp_condition pp_cont_param pp_cat_param decode_cont decode_cat st raw =
     (let line = clean_line raw in
      if CHR ''|'' \<in> set line then
        (case parseString pp_condition line of
           None \<Rightarrow> Inl (UnparsableConditionError line)
         | Some c \<Rightarrow> Inr (st\<lparr>condition_list := condition_list st @ [c]\<rparr>))
      else if CHR ''}'' \<notin> set line \<and> CHR '']'' \<notin> set line then Inr st
      else if startswith line ''{'' \<and> endswith line ''}'' then
        Inr (st\<lparr>forbidden_list := forbidden_list st @ [line]\<rparr>)
      else if length (strip line) = 0 then Inr st
      else
        bind_err (case parseString pp_cont_param line of
                    None \<Rightarrow> Inr None
                  | Some param_list \<Rightarrow> bind_err (decode_cont param_list) (\<lambda>h. Inr (Some h)))
          (\<lambda>param1.
             bind_err (case parseString pp_cat_param line of
                         None \<Rightarrow> Inr param1
                       | Some param_list \<Rightarrow> bind_err (decode_cat param_list) (\<lambda>h. Inr (Some h)))
               (\<lambda>param.
                  case param of
                    None \<Rightarrow> Inl (UnparsableParameterError line)
                  | Some h \<Rightarrow>
                      bind_err (add_hyperparameter (configuration_space st) h)
                        (\<lambda>cs. Inr (st\<lparr>configuration_space := cs\<rparr>)))))"

fun read_lines ::
  "('n read_state \<Rightarrow> string \<Rightarrow> error + 'n read_state) \<Rightarrow> string list \<Rightarrow> 'n read_state \<Rightarrow>
   error + 'n read_state" where
  "read_lines body [] st = Inr st"
| "read_lines body (raw # rest) st = bind_err (body st raw) (read_lines body rest)"

text \<open>
  The second loop, over the forbidden lines. A line that the grammar refuses raises
  \<^verbatim>\<open>ParseException\<close>, which nothing catches. The tokens after the opening brace are
  collected three at a time; the fourth (a comma or the closing brace) closes a triple,
  which becomes an equals clause on the named hyperparameter.
\<close>

fun forbidden_triples ::
  "'n configuration_space \<Rightarrow> tokens \<Rightarrow> tokens \<Rightarrow> 'n forbidden list \<Rightarrow> error + 'n forbidden list" where
  "forbidden_triples cs [] tmp_list clause_list = Inr clause_list"
| "forbidden_triples cs (v # vs) tmp_list clause_list =
     (if length tmp_list < 3 then forbidden_triples cs vs (tmp_list @ [v]) clause_list
      else if tmp_list ! 1 = ''='' then
        bind_err (get_hyperparameter cs (tmp_list ! 0))
          (\<lambda>h. forbidden_triples cs vs [] (clause_list @ [ForbiddenEqualsClause h (tmp_list ! 2)]))
      else Inl UnsupportedForbiddenOperatorError)"

fun read_forbidden :: "string list \<Rightarrow> 'n configuration_space \<Rightarrow> error + 'n configuration_space" where
  "read_forbidden [] cs = Inr cs"
| "read_forbidden (clause # rest) cs =
     (case parseString pp_forbidden_clause clause of
        None \<Rightarrow> Inl ParseException
      | Some param_list \<Rightarrow>
          bind_err (forbidden_triples cs (drop 1 param_list) [] [])
            (\<lambda>clause_list.
               read_forbidden rest (add_forbidden_clause cs (ForbiddenAndConjunction clause_list))))"

text \<open>The grouping of the parsed condition lines by the name of the child, an
  \<^verbatim>\<open>OrderedDict\<close>: keys in the order of their first line, lines in their order.\<close>

fun add_to_child :: "string \<Rightarrow> tokens \<Rightarrow> (string \<times> tokens list) list \<Rightarrow> (string \<times> tokens list) list" where
  "add_to_child k c [] = [(k, [c])]"
| "add_to_child k c ((k', cs) # rest) =
     (if k' = k then (k', cs @ [c]) # rest else (k', cs) # add_to_child k c rest)"

fun conditions_per_child ::
  "tokens list \<Rightarrow> (string \<times> tokens list) list \<Rightarrow> error + (string \<times> tokens list) list" where
  "conditions_per_child [] d = Inr d"
| "conditions_per_child (condition # rest) d =
     bind_err (item condition 0) (\<lambda>child_name. conditions_per_child rest (add_to_child child_name condition d))"

section \<open>The explicit dialect: read\<close>

definition pp_param_operation :: parser where
  "pp_param_operation = Word True (''in'' @ ''!='' @ ''=='' @ ''>'' @ ''<'')"

definition pp_param_val :: parser where
  "pp_param_val = Word True (alphanums @ pp_digits)"

definition pp_param_type :: parser where
  "pp_param_type = Word True (''integer'' @ ''real'' @ ''categorical'')"

definition pp_log :: parser where
  "pp_log = Word True ''log''"

definition pp_connective :: parser where
  "pp_connective = Word True (''||'' @ ''&&'')"

definition pcs_pp_cont_param :: parser where
  "pcs_pp_cont_param =
     And [pp_param_name, pp_param_type, Literal True ''['', pp_number, Literal True '','',
          pp_number, Literal True '']'', Literal True ''['', pp_number, Literal True '']'',
          Optional pp_log]"

definition pcs_pp_cat_param :: parser where
  "pcs_pp_cat_param =
     And [pp_param_name, pp_param_type, Literal True ''{'', pp_choices, Literal True ''}'',
          Literal True ''['', pp_param_name, Literal True '']'']"

definition pcs_pp_condition :: parser where
  "pcs_pp_condition =
     And [pp_param_name, Literal True ''|'', pp_param_name, pp_param_operation,
          Optional (Literal True ''{''), pp_param_val, Optional (Literal True ''}''),
          Optional (And [pp_connective, pp_param_name, pp_param_operation, pp_param_val])]"

definition to_float :: "'n numerics \<Rightarrow> string \<Rightarrow> error + 'n" where
  "to_float N t = (case py_float N t of None \<Rightarrow> Inl ValueError | Some x \<Rightarrow> Inr x)"

text \<open>The decoding of a continuous declaration. The type is \<^verbatim>\<open>int\<close> when one of
  the first ten tokens is \<^verbatim>\<open>integer\<close>; the scale is logarithmic when the eleventh
  token has \<^verbatim>\<open>log\<close> as a substring.\<close>

definition pcs_decode_cont :: "'n numerics \<Rightarrow> tokens \<Rightarrow> error + 'n hyperparameter" where
  "pcs_decode_cont N tokens =
     (let log = drop 10 tokens; param_list = take 10 tokens in
      bind_err (item param_list 0) (\<lambda>n.
      bind_err (bind_err (item param_list 3) (to_float N)) (\<lambda>lower.
      bind_err (bind_err (item param_list 5) (to_float N)) (\<lambda>upper.
      let log_on = (case log of [] \<Rightarrow> False | l # ls \<Rightarrow> contains ''log'' l) in
      bind_err (bind_err (item param_list 8) (to_float N)) (\<lambda>default.
        if ''integer'' \<in> set param_list
        then UniformIntegerHyperparameter N n lower upper None log_on default
        else UniformFloatHyperparameter N n lower upper None log_on default)))))"

definition pcs_decode_cat :: "tokens \<Rightarrow> error + 'n hyperparameter" where
  "pcs_decode_cat param_list =
     bind_err (item param_list 0) (\<lambda>n.
     bind_err (if 2 \<le> length param_list then Inr (param_list ! (length param_list - 2))
               else Inl IndexError) (\<lambda>default.
       CategoricalHyperparameter n (slice2 param_list 3 4) default))"

definition pcs_read_line :: "'n numerics \<Rightarrow> 'n read_state \<Rightarrow> string \<Rightarrow> error + 'n read_state" where
  "pcs_read_line N =
     read_line pcs_pp_condition pcs_pp_cont_param pcs_pp_cat_param (pcs_decode_cont N) pcs_decode_cat"

text \<open>
  The third loop. \<^verbatim>\<open>connective\<close>, \<^verbatim>\<open>condition1\<close> and \<^verbatim>\<open>condition2\<close> are
  variables of the function: they keep their value from one line to the next and from
  one child to the next, and reading one that was never assigned is an
  \<^verbatim>\<open>UnboundLocalError\<close>.
\<close>

record 'n locals =
  connective :: "string option"
  condition1 :: "'n condition option"
  condition2 :: "'n condition option"

definition unbound :: "'a option \<Rightarrow> error + 'a" where
  "unbound v = (case v of None \<Rightarrow> Inl UnboundLocalError | Some x \<Rightarrow> Inr x)"

text \<open>The second fact of a line, whose connective is the token at \<open>i\<close>: the code of
  the source for it is the same after a membership fact (\<open>i = 7\<close>) and after any other
  (\<open>i = 5\<close>).\<close>

definition second_fact ::
  "'n configuration_space \<Rightarrow> 'n hyperparameter \<Rightarrow> tokens \<Rightarrow> nat \<Rightarrow>
   'n condition list \<times> 'n locals \<Rightarrow> error + 'n condition list \<times> 'n locals" where
  "second_fact cs child condition i = (\<lambda>(condition_objects, v).
     bind_err (item condition i) (\<lambda>conn.
     let v = v\<lparr>connective := Some conn\<rparr> in
     bind_err (item condition (i + 1)) (\<lambda>parent_name2.
     bind_err (get_hyperparameter cs parent_name2) (\<lambda>parent2.
     bind_err (item condition (i + 2)) (\<lambda>operation2.
     bind_err
       (if operation2 = ''in''
        then bind_err (new_condition InCondition child parent2 (slice2 condition (i + 4) 1))
               (\<lambda>c. Inr (v\<lparr>condition2 := Some c\<rparr>))
        else bind_err (item condition (i + 3)) (\<lambda>restrictions2.
               if operation2 = ''==''
               then bind_err (new_condition EqualsCondition child parent2 restrictions2)
                      (\<lambda>c. Inr (v\<lparr>condition2 := Some c\<rparr>))
               else if operation2 = ''!=''
               then bind_err (new_condition NotEqualsCondition child parent2 restrictions2)
                      (\<lambda>c. Inr (v\<lparr>condition2 := Some c\<rparr>))
               else Inr v))
       (\<lambda>v. bind_err (unbound (condition2 v)) (\<lambda>c2. Inr (condition_objects @ [c2], v))))))))"

definition first_fact_tail ::
  "'n configuration_space \<Rightarrow> 'n hyperparameter \<Rightarrow> 'n hyperparameter \<Rightarrow> tokens \<Rightarrow> string \<Rightarrow>
   string \<Rightarrow> 'n condition list \<times> 'n locals \<Rightarrow> error + 'n condition list \<times> 'n locals" where
  "first_fact_tail cs child parent condition operation restrictions = (\<lambda>(condition_objects, v).
     bind_err
       (if operation = ''==''
        then bind_err (new_condition EqualsCondition child parent restrictions)
               (\<lambda>c. Inr (v\<lparr>condition1 := Some c\<rparr>))
        else if operation = ''!=''
        then bind_err (new_condition NotEqualsCondition child parent restrictions)
               (\<lambda>c. Inr (v\<lparr>condition1 := Some c\<rparr>))
        else Inr v)
       (\<lambda>v. bind_err (unbound (condition1 v)) (\<lambda>c1.
          if length condition > 4
          then second_fact cs child condition 5 (condition_objects @ [c1], v)
          else Inr (condition_objects @ [c1], v))))"

definition pcs_condition_line ::
  "'n configuration_space \<Rightarrow> string \<Rightarrow> tokens \<Rightarrow> 'n condition list \<times> 'n locals \<Rightarrow>
   error + 'n condition list \<times> 'n locals" where
  "pcs_condition_line cs child_name condition = (\<lambda>(condition_objects, v).
     bind_err (get_hyperparameter cs child_name) (\<lambda>child.
     bind_err (item condition 2) (\<lambda>parent_name.
     bind_err (get_hyperparameter cs parent_name) (\<lambda>parent.
     bind_err (item condition 3) (\<lambda>operation.
       if operation = ''in'' then
         bind_err (new_condition InCondition child parent (slice2 condition 5 1)) (\<lambda>c1.
           let condition_objects = condition_objects @ [c1]; v = v\<lparr>condition1 := Some c1\<rparr> in
           if length condition > 7
           then bind_err (second_fact cs child condition 7 (condition_objects, v))
                  (first_fact_tail cs child parent condition operation [])
           else Inr (condition_objects, v))
       else
         bind_err (item condition 4) (\<lambda>restrictions.
           first_fact_tail cs child parent condition operation restrictions
             (condition_objects, v)))))))"

fun pcs_condition_lines ::
  "'n configuration_space \<Rightarrow> string \<Rightarrow> tokens list \<Rightarrow> 'n condition list \<times> 'n locals \<Rightarrow>
   error + 'n condition list \<times> 'n locals" where
  "pcs_condition_lines cs child_name [] acc = Inr acc"
| "pcs_condition_lines cs child_name (condition # rest) acc =
     bind_err (pcs_condition_line cs child_name condition acc) (pcs_condition_lines cs child_name rest)"

fun pcs_read_conditions ::
  "(string \<times> tokens list) list \<Rightarrow> 'n configuration_space \<times> 'n locals \<Rightarrow>
   error + 'n configuration_space \<times> 'n locals" where
  "pcs_read_conditions [] acc = Inr acc"
| "pcs_read_conditions ((child_name, cond_lines) # rest) (cs, v) =
     bind_err (pcs_condition_lines cs child_name cond_lines ([], v)) (\<lambda>(condition_objects, v).
       if length condition_objects > 1 then
         bind_err (unbound (connective v)) (\<lambda>conn.
           if conn = ''&&''
           then pcs_read_conditions rest (add_condition cs (AndConjunction condition_objects), v)
           else pcs_read_conditions rest (add_condition cs (OrConjunction condition_objects), v))
       else
         bind_err (item condition_objects 0) (\<lambda>c.
           pcs_read_conditions rest (add_condition cs c, v)))"

definition read_start :: "'n read_state" where
  "read_start = \<lparr>configuration_space = ConfigurationSpace, condition_list = [], forbidden_list = []\<rparr>"

definition no_locals :: "'n locals" where
  "no_locals = \<lparr>connective = None, condition1 = None, condition2 = None\<rparr>"

definition pcs_read :: "'n numerics \<Rightarrow> string list \<Rightarrow> error + 'n configuration_space" where
  "pcs_read N pcs_string =
     bind_err (read_lines (pcs_read_line N) pcs_string read_start) (\<lambda>st.
     bind_err (read_forbidden (forbidden_list st) (configuration_space st)) (\<lambda>cs.
     bind_err (conditions_per_child (condition_list st) []) (\<lambda>groups.
     bind_err (pcs_read_conditions groups (cs, no_locals)) (\<lambda>(cs, v). Inr cs))))"

section \<open>The compact dialect: read\<close>

definition pp_il :: parser where
  "pp_il = Word True ''il''"

definition irace_pp_cont_param :: parser where
  "irace_pp_cont_param =
     And [pp_param_name, Literal True ''['', pp_number, Literal True '','', pp_number,
          Literal True '']'', Literal True ''['', pp_number, Literal True '']'', Optional pp_il]"

definition irace_pp_cat_param :: parser where
  "irace_pp_cat_param =
     And [pp_param_name, Literal True ''{'', pp_choices, Literal True ''}'',
          Literal True ''['', pp_param_name, Literal True '']'']"

definition irace_pp_condition :: parser where
  "irace_pp_condition =
     And [pp_param_name, Literal True ''|'', pp_param_name, Literal True ''in'',
          Literal True ''{'', pp_choices, Literal True ''}'']"

definition irace_decode_cont :: "'n numerics \<Rightarrow> tokens \<Rightarrow> error + 'n hyperparameter" where
  "irace_decode_cont N tokens =
     (let il = drop 9 tokens; param_list = take 9 tokens in
      bind_err (item param_list 0) (\<lambda>n.
      bind_err (bind_err (item param_list 2) (to_float N)) (\<lambda>lower.
      bind_err (bind_err (item param_list 4) (to_float N)) (\<lambda>upper.
      let is_int = (case il of [] \<Rightarrow> False | t # ts \<Rightarrow> contains ''i'' t);
          log = (case il of [] \<Rightarrow> False | t # ts \<Rightarrow> contains ''l'' t) in
      bind_err (bind_err (item param_list 7) (to_float N)) (\<lambda>default.
        if is_int
        then UniformIntegerHyperparameter N n lower upper None log default
        else UniformFloatHyperparameter N n lower upper None log default)))))"

definition irace_decode_cat :: "tokens \<Rightarrow> error + 'n hyperparameter" where
  "irace_decode_cat param_list =
     bind_err (item param_list 0) (\<lambda>n.
     bind_err (if 2 \<le> length param_list then Inr (param_list ! (length param_list - 2))
               else Inl IndexError) (\<lambda>default.
       CategoricalHyperparameter n (slice2 param_list 2 4) default))"

definition irace_read_line :: "'n numerics \<Rightarrow> 'n read_state \<Rightarrow> string \<Rightarrow> error + 'n read_state" where
  "irace_read_line N =
     read_line irace_pp_condition irace_pp_cont_param irace_pp_cat_param (irace_decode_cont N)
       irace_decode_cat"

text \<open>The third loop of \<^verbatim>\<open>irace.py\<close>: a fact with one value is an equals condition,
  any other a membership condition; two or more facts of a child are joined by AND.\<close>

definition irace_condition_object ::
  "'n configuration_space \<Rightarrow> string \<Rightarrow> tokens \<Rightarrow> error + 'n condition" where
  "irace_condition_object cs child_name condition =
     bind_err (get_hyperparameter cs child_name) (\<lambda>child.
     bind_err (item condition 2) (\<lambda>parent_name.
     bind_err (get_hyperparameter cs parent_name) (\<lambda>parent.
       let restrictions = slice2 condition 5 1 in
       if length restrictions = 1
       then bind_err (item restrictions 0) (new_condition EqualsCondition child parent)
       else new_condition InCondition child parent restrictions)))"

fun irace_read_conditions ::
  "(string \<times> tokens list) list \<Rightarrow> 'n configuration_space \<Rightarrow> error + 'n configuration_space" where
  "irace_read_conditions [] cs = Inr cs"
| "irace_read_conditions ((child_name, cond_lines) # rest) cs =
     bind_err (map_err (irace_condition_object cs child_name) cond_lines) (\<lambda>condition_objects.
       if length condition_objects > 1
       then irace_read_conditions rest (add_condition cs (AndConjunction condition_objects))
       else bind_err (item condition_objects 0) (\<lambda>c.
              irace_read_conditions rest (add_condition cs c)))"

definition irace_read :: "'n numerics \<Rightarrow> string list \<Rightarrow> error + 'n configuration_space" where
  "irace_read N pcs_string =
     bind_err (read_lines (irace_read_line N) pcs_string read_start) (\<lambda>st.
     bind_err (read_forbidden (forbidden_list st) (configuration_space st)) (\<lambda>cs.
     bind_err (conditions_per_child (condition_list st) []) (\<lambda>groups.
       irace_read_conditions groups cs)))"

section \<open>The forbidden-clause expansion in the words of the specification\<close>

text \<open>
  The leaves of a stored clause are separated into membership atomics and plain
  atomics. Without a membership atomic the clause is one line. Otherwise there is one
  line for every combination of the Cartesian product of the value sets: an equality
  per membership atomic, with the value the combination chooses, then the plain
  atomics. A line is \<^verbatim>\<open>{name=value, name=value, ...}\<close>.
\<close>

fun membership_atomics :: "'n forbidden list \<Rightarrow> ('n hyperparameter \<times> string list) list" where
  "membership_atomics [] = []"
| "membership_atomics (ForbiddenInClause h vs # ds) = (h, vs) # membership_atomics ds"
| "membership_atomics (d # ds) = membership_atomics ds"

fun plain_atomics :: "'n forbidden list \<Rightarrow> ('n hyperparameter \<times> string) list" where
  "plain_atomics [] = []"
| "plain_atomics (ForbiddenEqualsClause h v # ds) = (h, v) # plain_atomics ds"
| "plain_atomics (d # ds) = plain_atomics ds"

definition equality_text :: "'n hyperparameter \<times> string \<Rightarrow> string" where
  "equality_text = (\<lambda>(h, v). name h @ ''='' @ v)"

definition clause_text :: "('n hyperparameter \<times> string) list \<Rightarrow> string" where
  "clause_text ps = ''{'' @ join '', '' (map equality_text ps) @ ''}''"

definition expand_clause :: "'n forbidden \<Rightarrow> string list" where
  "expand_clause f =
     (let leaves = get_descendant_literal_clauses f;
          ms = membership_atomics leaves;
          plain = plain_atomics leaves
      in if ms = [] then [clause_text plain]
         else map (\<lambda>combination. clause_text (zip (map fst ms) combination @ plain))
                (product_lists (map snd ms)))"

fun atomic :: "'n forbidden \<Rightarrow> bool" where
  "atomic (ForbiddenAndConjunction fs) = False"
| "atomic f = True"

definition equals_of :: "'n hyperparameter \<times> string \<Rightarrow> 'n forbidden" where
  "equals_of = (\<lambda>(h, v). ForbiddenEqualsClause h v)"

section \<open>The classification of a line in the words of the specification\<close>

text \<open>
  The classes of a cleaned line, in the order of the specification: a line with
  \<^verbatim>\<open>|\<close> is a condition; else a line with neither \<^verbatim>\<open>}\<close> nor \<^verbatim>\<open>]\<close> is skipped;
  else a line wrapped in braces is a forbidden literal; else it is a declaration, for
  the continuous grammar if that matches, else for the categorical one if that matches.
  A grammar matches as \<open>parseString\<close> does. \<open>line_effect\<close> is what each class does
  to the state of the read.
\<close>

datatype line_class =
    ConditionLine tokens
  | UnmatchedCondition
  | Skipped
  | ForbiddenLiteral
  | ContinuousDeclaration tokens
  | CategoricalDeclaration tokens
  | UnmatchedDeclaration

definition classify :: "parser \<Rightarrow> parser \<Rightarrow> parser \<Rightarrow> string \<Rightarrow> line_class" where
  "classify pp_condition pp_cont_param pp_cat_param line =
     (if CHR ''|'' \<in> set line then
        (case parseString pp_condition line of
           None \<Rightarrow> UnmatchedCondition
         | Some c \<Rightarrow> ConditionLine c)
      else if CHR ''}'' \<notin> set line \<and> CHR '']'' \<notin> set line then Skipped
      else if startswith line ''{'' \<and> endswith line ''}'' then ForbiddenLiteral
      else (case parseString pp_cont_param line of
              Some param_list \<Rightarrow> ContinuousDeclaration param_list
            | None \<Rightarrow>
                (case parseString pp_cat_param line of
                   Some param_list \<Rightarrow> CategoricalDeclaration param_list
                 | None \<Rightarrow> UnmatchedDeclaration)))"

definition declare_hyperparameter ::
  "'n read_state \<Rightarrow> error + 'n hyperparameter \<Rightarrow> error + 'n read_state" where
  "declare_hyperparameter st decoded =
     bind_err decoded (\<lambda>h.
       bind_err (add_hyperparameter (configuration_space st) h)
         (\<lambda>cs. Inr (st\<lparr>configuration_space := cs\<rparr>)))"

fun line_effect ::
  "(tokens \<Rightarrow> error + 'n hyperparameter) \<Rightarrow> (tokens \<Rightarrow> error + 'n hyperparameter) \<Rightarrow>
   'n read_state \<Rightarrow> string \<Rightarrow> line_class \<Rightarrow> error + 'n read_state" where
  "line_effect decode_cont decode_cat st line (ConditionLine c) =
     Inr (st\<lparr>condition_list := condition_list st @ [c]\<rparr>)"
| "line_effect decode_cont decode_cat st line UnmatchedCondition =
     Inl (UnparsableConditionError line)"
| "line_effect decode_cont decode_cat st line Skipped = Inr st"
| "line_effect decode_cont decode_cat st line ForbiddenLiteral =
     Inr (st\<lparr>forbidden_list := forbidden_list st @ [line]\<rparr>)"
| "line_effect decode_cont decode_cat st line (ContinuousDeclaration param_list) =
     declare_hyperparameter st (decode_cont param_list)"
| "line_effect decode_cont decode_cat st line (CategoricalDeclaration param_list) =
     declare_hyperparameter st (decode_cat param_list)"
| "line_effect decode_cont decode_cat st line UnmatchedDeclaration =
     Inl (UnparsableParameterError line)"

text \<open>A grammar matches the full line when it consumes all of it.\<close>

definition matches_full_line :: "parser \<Rightarrow> string \<Rightarrow> bool" where
  "matches_full_line p line = (case p line of None \<Rightarrow> False | Some (ts, r) \<Rightarrow> r = [])"

text \<open>What the first loop keeps of a sequence of lines: the forbidden literals, and the
  tokens of the condition lines.\<close>

definition kept_forbidden :: "parser \<Rightarrow> parser \<Rightarrow> parser \<Rightarrow> string list \<Rightarrow> string list" where
  "kept_forbidden pc pn pk raws =
     filter (\<lambda>line. classify pc pn pk line = ForbiddenLiteral) (map clean_line raws)"

definition parsed_conditions :: "parser \<Rightarrow> string list \<Rightarrow> tokens list" where
  "parsed_conditions pc raws =
     List.map_filter (\<lambda>raw. if CHR ''|'' \<in> set (clean_line raw)
                            then parseString pc (clean_line raw) else None) raws"

text \<open>
  A line is marked when it holds one of the three characters by which the read
  recognises a construct. A marked line is matched when the grammar of its class
  matches it.
\<close>

definition marked :: "string \<Rightarrow> bool" where
  "marked line = (CHR ''|'' \<in> set line \<or> CHR ''}'' \<in> set line \<or> CHR '']'' \<in> set line)"

definition matched :: "parser \<Rightarrow> parser \<Rightarrow> parser \<Rightarrow> string \<Rightarrow> bool" where
  "matched pp_condition pp_cont_param pp_cat_param line =
     (if CHR ''|'' \<in> set line then parseString pp_condition line \<noteq> None
      else if startswith line ''{'' \<and> endswith line ''}''
      then parseString pp_forbidden_clause line \<noteq> None
      else parseString pp_cont_param line \<noteq> None \<or> parseString pp_cat_param line \<noteq> None)"

section \<open>The grouping of conditions in the words of the specification\<close>

text \<open>
  The children are the names that begin the condition lines, each once, in the order
  of their first line; the lines of a child are the condition lines that begin with
  its name, in their order. Two or more facts of a child are joined by AND, a single
  fact stands as it is.
\<close>

definition first_occurrences :: "'a list \<Rightarrow> 'a list" where
  "first_occurrences xs = rev (remdups (rev xs))"

definition lines_of :: "string \<Rightarrow> tokens list \<Rightarrow> tokens list" where
  "lines_of child conds = filter (\<lambda>c. hd c = child) conds"

definition grouped :: "tokens list \<Rightarrow> (string \<times> tokens list) list" where
  "grouped conds = map (\<lambda>child. (child, lines_of child conds)) (first_occurrences (map hd conds))"

definition conjoin :: "'n condition list \<Rightarrow> 'n condition" where
  "conjoin facts = (if length facts > 1 then AndConjunction facts else hd facts)"

text \<open>
  In the explicit dialect the conjunction of a child is chosen by the connective that
  was parsed most recently: \<open>latest_connective\<close> follows it through the lines, where
  a membership line of at most seven tokens carries none and leaves it as it was, and
  any other line sets it to its sixth token. \<open>assemble\<close> gives each child its one
  condition from the leaves of its lines: the single leaf, or the conjunction of all of
  them, AND when that connective is \<^verbatim>\<open>&&\<close> and OR otherwise.
\<close>

fun latest_connective :: "tokens list \<Rightarrow> string option \<Rightarrow> string option" where
  "latest_connective [] conn = conn"
| "latest_connective (c # cs) conn =
     latest_connective cs (if c ! 3 = ''in'' \<and> length c \<le> 7 then conn else Some (c ! 5))"

fun assemble ::
  "(string \<times> tokens list) list \<Rightarrow> string option \<Rightarrow> 'n condition list list \<Rightarrow> 'n condition list" where
  "assemble [] conn leaves = []"
| "assemble ((child, ls) # groups) conn [] = []"
| "assemble ((child, ls) # groups) conn (objs # leaves) =
     (let conn' = latest_connective ls conn
      in (if length objs > 1
          then (if conn' = Some ''&&'' then AndConjunction objs else OrConjunction objs)
          else hd objs) # assemble groups conn' leaves)"

text \<open>
  A membership line of the explicit dialect that carries no connective, as the
  specification writes it: \<^verbatim>\<open>child | parent in {value}\<close>, of at most seven tokens,
  whose child and parent are declared and differ.
\<close>

definition declared_pair :: "'n configuration_space \<Rightarrow> tokens \<Rightarrow> bool" where
  "declared_pair cs c =
     (case get_hyperparameter cs (c ! 0) of
        Inl e \<Rightarrow> False
      | Inr child \<Rightarrow>
          (case get_hyperparameter cs (c ! 2) of
             Inl e \<Rightarrow> False
           | Inr parent \<Rightarrow> name child \<noteq> name parent))"

definition membership_line :: "'n configuration_space \<Rightarrow> tokens \<Rightarrow> bool" where
  "membership_line cs c = (4 \<le> length c \<and> length c \<le> 7 \<and> c ! 3 = ''in'' \<and> declared_pair cs c)"

section \<open>The spaces of the round trip in the explicit dialect\<close>

text \<open>
  A word that \<^verbatim>\<open>pp_param_name\<close> reads back whole: not empty, of the characters of
  the name. A value of a forbidden clause and a number of a declaration are read back
  whole by their grammars, \<^verbatim>\<open>pp_numberorname\<close> and \<^verbatim>\<open>pp_number\<close>.
\<close>

definition name_token :: "string \<Rightarrow> bool" where
  "name_token w = (w \<noteq> [] \<and> list_all (\<lambda>c. c \<in> set name_chars) w)"

definition value_token :: "string \<Rightarrow> bool" where
  "value_token v = (pp_numberorname v = Some ([v], []))"

definition number_token :: "string \<Rightarrow> bool" where
  "number_token t = (pp_number t = Some ([t], []))"

text \<open>
  A number of a continuous hyperparameter is written by \<^verbatim>\<open>%d\<close> when the type is
  integer and by \<^verbatim>\<open>str\<close> otherwise; it is read back when what is written is a number
  token from which \<^verbatim>\<open>float\<close> gives the number.
\<close>

definition printed :: "'n numerics \<Rightarrow> bool \<Rightarrow> 'n \<Rightarrow> string" where
  "printed N is_int x = (if is_int then fmt_d N x else py_str N x)"

definition read_back :: "'n numerics \<Rightarrow> bool \<Rightarrow> 'n \<Rightarrow> bool" where
  "read_back N is_int x =
     (number_token (printed N is_int x) \<and> py_float N (printed N is_int x) = Some x)"

text \<open>
  A hyperparameter whose declaration is read back. For a categorical one the name and
  the choices are name words, the choices differ from one another and the default is
  one of them. For a continuous one the name is a name word, there is no quantization
  (it is written as a prefix of the name and read as part of it), the name is not
  \<^verbatim>\<open>integer\<close> unless the type is (the read takes the type to be integer when that
  word is among the first ten tokens), the bounds and the default are read back, and
  they pass the range check of the constructor. A constant is written without a type
  word, which the grammars of the read require.
\<close>

fun writable_hyperparameter :: "'n numerics \<Rightarrow> 'n hyperparameter \<Rightarrow> bool" where
  "writable_hyperparameter N (Categorical n cs d) =
     (name_token n \<and> cs \<noteq> [] \<and> list_all name_token cs \<and> distinct cs \<and> d \<in> set cs)"
| "writable_hyperparameter N (Continuous n lo hi d is_int lg q) =
     (name_token n \<and> q = None \<and> (is_int \<or> n \<noteq> ''integer'')
      \<and> read_back N is_int lo \<and> read_back N is_int hi \<and> read_back N is_int d
      \<and> num_less N lo hi \<and> num_le N lo d \<and> num_le N d hi)"
| "writable_hyperparameter N (Constant n v) = False"

fun writable_atomic :: "'n hyperparameter list \<Rightarrow> 'n forbidden \<Rightarrow> bool" where
  "writable_atomic hs (ForbiddenEqualsClause h v) = (h \<in> set hs \<and> value_token v)"
| "writable_atomic hs (ForbiddenInClause h vs) = (h \<in> set hs \<and> list_all value_token vs)"
| "writable_atomic hs (ForbiddenAndConjunction fs) = False"

text \<open>
  A forbidden clause has leaves, each on a hyperparameter of the space with values
  as above; a space of the round trip holds hyperparameters as above under names that
  differ, no condition, and such forbidden clauses.
\<close>

definition writable_forbidden :: "'n hyperparameter list \<Rightarrow> 'n forbidden \<Rightarrow> bool" where
  "writable_forbidden hs f =
     (get_descendant_literal_clauses f \<noteq> []
      \<and> list_all (writable_atomic hs) (get_descendant_literal_clauses f))"

definition expressible :: "'n numerics \<Rightarrow> 'n configuration_space \<Rightarrow> bool" where
  "expressible N cs =
     (list_all (writable_hyperparameter N) (hyperparameters cs)
      \<and> distinct (map name (hyperparameters cs))
      \<and> conditions cs = []
      \<and> list_all (writable_forbidden (hyperparameters cs)) (forbidden_clauses cs))"

text \<open>
  The forbidden combinations of a space: for each clause the assignments of its
  expansion, each a list of pairs of the name of a hyperparameter and a value.
\<close>

definition expansions :: "'n forbidden \<Rightarrow> ('n hyperparameter \<times> string) list list" where
  "expansions f =
     (let leaves = get_descendant_literal_clauses f;
          ms = membership_atomics leaves;
          plain = plain_atomics leaves
      in if ms = [] then [plain]
         else map (\<lambda>combination. zip (map fst ms) combination @ plain)
                (product_lists (map snd ms)))"

definition named :: "('n hyperparameter \<times> string) list \<Rightarrow> (string \<times> string) list" where
  "named ps = map (\<lambda>(h, v). (name h, v)) ps"

definition forbidden_combinations :: "'n configuration_space \<Rightarrow> (string \<times> string) list set" where
  "forbidden_combinations cs = set (map named (concat (map expansions (forbidden_clauses cs))))"

text \<open>
  The text and the tokens of the tail of a list of choices and of a forbidden clause,
  the buffer \<^verbatim>\<open>param_lines\<close> after the first loop of \<^verbatim>\<open>write\<close>, and the
  characters of a written line.
\<close>

fun more_choices :: "string list \<Rightarrow> string" where
  "more_choices [] = []"
| "more_choices (c # cs) = '', '' @ c @ more_choices cs"

fun more_choice_tokens :: "string list \<Rightarrow> tokens" where
  "more_choice_tokens [] = []"
| "more_choice_tokens (c # cs) = '','' # c # more_choice_tokens cs"

fun more_pairs :: "(string \<times> string) list \<Rightarrow> string" where
  "more_pairs [] = []"
| "more_pairs ((n, v) # ps) = '', '' @ n @ ''='' @ v @ more_pairs ps"

fun more_pair_tokens :: "(string \<times> string) list \<Rightarrow> tokens" where
  "more_pair_tokens [] = []"
| "more_pair_tokens ((n, v) # ps) = '','' # n # ''='' # v # more_pair_tokens ps"

definition pair_token :: "string \<times> string \<Rightarrow> bool" where
  "pair_token = (\<lambda>(n, v). name_token n \<and> value_token v)"

definition writable_pairs :: "'n hyperparameter list \<Rightarrow> ('n hyperparameter \<times> string) list \<Rightarrow> bool" where
  "writable_pairs hs pairs = (pairs \<noteq> [] \<and> list_all (\<lambda>(h, v). h \<in> set hs \<and> value_token v) pairs)"

definition plain_text :: "string \<Rightarrow> bool" where
  "plain_text s = list_all (\<lambda>c. c \<in> set name_chars \<or> c \<in> set '' ,{}[]='') s"

fun buffer_lines :: "string \<Rightarrow> string list \<Rightarrow> string" where
  "buffer_lines buf [] = buf"
| "buffer_lines buf (l # ls) =
     buffer_lines ((if length buf > 0 then buf @ [CHR 0x0A] else buf) @ l) ls"

text \<open>
  Two properties of a parser, for the proofs: it gives the same tokens when a character
  \<open>c\<close> and more text follow its input (and fails when it failed), and its tokens are
  made of the characters of a set.
\<close>

definition stable :: "char \<Rightarrow> parser \<Rightarrow> bool" where
  "stable c p =
     (\<forall>s r. case p s of
              None \<Rightarrow> p (s @ c # r) = None
            | Some (ts, u) \<Rightarrow> p (s @ c # r) = Some (ts, u @ c # r))"

definition emits :: "char set \<Rightarrow> parser \<Rightarrow> bool" where
  "emits C p = (\<forall>s ts r. p s = Some (ts, r) \<longrightarrow> set (concat ts) \<subseteq> C)"

section \<open>Sample inputs\<close>

text \<open>Numerics for spaces without continuous hyperparameters, where none of the
  operations is called.\<close>

abbreviation newline :: char where
  "newline \<equiv> CHR 0x0A"

abbreviation no_numerics :: "unit numerics" where
  "no_numerics \<equiv> \<lparr>py_float = (\<lambda>t. None), py_str = (\<lambda>x. []), fmt_d = (\<lambda>x. []),
                    num_less = (\<lambda>x y. False), num_le = (\<lambda>x y. True)\<rparr>"

text \<open>Numerics that stand for a number by its token: \<^verbatim>\<open>float\<close>, \<^verbatim>\<open>str\<close> and
  \<^verbatim>\<open>%d\<close> are the identity, and the order is that of the strings, which is the order
  of the numbers for the tokens used below.\<close>

abbreviation token_numerics :: "string numerics" where
  "token_numerics \<equiv> \<lparr>py_float = (\<lambda>t. Some t), py_str = (\<lambda>x. x), fmt_d = (\<lambda>x. x),
                       num_less = (\<lambda>x y. x < y), num_le = (\<lambda>x y. x \<le> y)\<rparr>"

abbreviation int_x :: "string hyperparameter" where
  "int_x \<equiv> Continuous ''x'' ''1'' ''9'' ''5'' True False None"

abbreviation real_y :: "string hyperparameter" where
  "real_y \<equiv> Continuous ''y'' ''0.5'' ''2.5'' ''1.5'' False True None"

abbreviation choice_a :: "string hyperparameter" where
  "choice_a \<equiv> Categorical ''a'' [''1'', ''2''] ''1''"

abbreviation mixed_space :: "string configuration_space" where
  "mixed_space \<equiv>
     \<lparr>hyperparameters = [int_x, real_y, choice_a], conditions = [],
      forbidden_clauses =
        [ForbiddenAndConjunction
           [ForbiddenInClause choice_a [''2'', ''1''], ForbiddenEqualsClause real_y ''1.5''],
         ForbiddenAndConjunction
           [ForbiddenEqualsClause choice_a ''1e5'', ForbiddenEqualsClause int_x ''-1'',
            ForbiddenEqualsClause real_y ''+x'']]\<rparr>"

abbreviation cat_a :: "unit hyperparameter" where
  "cat_a \<equiv> Categorical ''a'' [''1'', ''2''] ''1''"

abbreviation cat_b :: "unit hyperparameter" where
  "cat_b \<equiv> Categorical ''b'' [''3''] ''3''"

abbreviation a_in_b_eq :: "unit forbidden" where
  "a_in_b_eq \<equiv> ForbiddenAndConjunction [ForbiddenInClause cat_a [''2'', ''1''], ForbiddenEqualsClause cat_b ''3'']"

text \<open>The constructs that \<^verbatim>\<open>build_condition\<close> of \<^verbatim>\<open>irace.py\<close> refuses by name.\<close>

fun unsupported :: "'n condition \<Rightarrow> bool" where
  "unsupported (OrConjunction cs) = True"
| "unsupported (NotEqualsCondition c p v) = True"
| "unsupported c = False"

abbreviation b_if_a_is_1 :: "unit condition" where
  "b_if_a_is_1 \<equiv> EqualsCondition cat_b cat_a ''1''"

abbreviation cat_c :: "unit hyperparameter" where
  "cat_c \<equiv> Categorical ''c'' [''5'', ''6''] ''5''"

abbreviation c_if_a_or_b :: "unit condition" where
  "c_if_a_or_b \<equiv> OrConjunction [EqualsCondition cat_c cat_a ''1'', EqualsCondition cat_c cat_b ''3'']"

section \<open>Properties of the parser library and the helpers\<close>

lemma bind_err_simps [simp]:
  "bind_err (Inl e) f = Inl e" "bind_err (Inr x) f = f x"
  by (simp_all add: bind_err_def)

section \<open>Forbidden clauses on write\<close>

lemma descendants_atomic: "d \<in> set (get_descendant_literal_clauses f) \<Longrightarrow> atomic d"
  by (induction f arbitrary: d) auto

lemma split_statements_atomic:
  "\<forall>d\<in>set ds. atomic d \<Longrightarrow>
   split_statements ds =
     (map (\<lambda>(h, vs). map (ForbiddenEqualsClause h) vs) (membership_atomics ds),
      map equals_of (plain_atomics ds))"
proof (induction ds)
  case Nil
  then show ?case by simp
next
  case (Cons d ds)
  then show ?case by (cases d) (simp_all add: equals_of_def)
qed

lemma loop_equals:
  "length buf \<ge> 1 \<Longrightarrow>
   build_forbidden_loop (map equals_of ps) buf =
     Inr (if ps = [] then buf
          else (if length buf > 1 then buf @ '', '' else buf) @ join '', '' (map equality_text ps))"
proof (induction ps arbitrary: buf)
  case Nil
  then show ?case by simp
next
  case (Cons p ps)
  obtain h v where p: "p = (h, v)" by (cases p)
  show ?case
  proof (cases ps)
    case Nil
    then show ?thesis by (simp add: p equals_of_def equality_text_def)
  next
    case (Cons p' ps')
    have "build_forbidden_loop (map equals_of (p # ps)) buf =
          build_forbidden_loop (map equals_of ps)
            ((if length buf > 1 then buf @ '', '' else buf) @ equality_text p)"
      by (simp add: p equals_of_def equality_text_def)
    also have "\<dots> = Inr (((if length buf > 1 then buf @ '', '' else buf) @ equality_text p)
                         @ '', '' @ join '', '' (map equality_text ps))"
      using Cons.prems Cons by (subst Cons.IH) (auto simp: p equality_text_def)
    finally show ?thesis using Cons by simp
  qed
qed

lemma descendants_equals: 
  "get_descendant_literal_clauses (ForbiddenAndConjunction (map equals_of ps)) = map equals_of ps"
  by (induction ps) (auto simp: equals_of_def)

lemma build_equals: "pcs_build_forbidden (ForbiddenAndConjunction (map equals_of ps)) = Inr (clause_text ps)"
  unfolding pcs_build_forbidden_def descendants_equals
  by (subst loop_equals) (auto simp: clause_text_def)

lemma no_membership_all_plain:
  "\<forall>d\<in>set ds. atomic d \<Longrightarrow> membership_atomics ds = [] \<Longrightarrow> ds = map equals_of (plain_atomics ds)"
proof (induction ds)
  case Nil
  then show ?case by simp
next
  case (Cons d ds)
  then show ?case by (cases d) (simp_all add: equals_of_def)
qed

lemma build_plain:
  assumes "membership_atomics (get_descendant_literal_clauses f) = []"
  shows "pcs_build_forbidden f = Inr (clause_text (plain_atomics (get_descendant_literal_clauses f)))"
proof -
  have "get_descendant_literal_clauses f = map equals_of (plain_atomics (get_descendant_literal_clauses f))"
    using no_membership_all_plain assms descendants_atomic by blast
  then have "build_forbidden_loop (get_descendant_literal_clauses f) ''{''
      = build_forbidden_loop (map equals_of (plain_atomics (get_descendant_literal_clauses f))) ''{''"
    by simp
  then show ?thesis unfolding pcs_build_forbidden_def
    by (simp add: loop_equals clause_text_def)
qed

lemma product_of_membership:
  "product_lists (map (\<lambda>(h, vs). map (ForbiddenEqualsClause h) vs) ms) =
   map (\<lambda>combination. map equals_of (zip (map fst ms) combination)) (product_lists (map snd ms))"
proof (induction ms)
  case Nil
  then show ?case by simp
next
  case (Cons m ms)
  obtain h vs where m: "m = (h, vs)" by (cases m)
  show ?case
    by (simp add: m Cons.IH map_concat comp_def equals_of_def)
qed

lemma map_err_total: "map_err (\<lambda>x. Inr (g x)) xs = Inr (map g xs)"
  by (induction xs) auto

lemma build_combinations:
  "map_err (\<lambda>p. pcs_build_forbidden (ForbiddenAndConjunction (p @ map equals_of plain)))
     (map (\<lambda>combination. map equals_of (g combination)) cs) =
   Inr (map (\<lambda>combination. clause_text (g combination @ plain)) cs)"
proof -
  have "\<And>c. pcs_build_forbidden (ForbiddenAndConjunction (map equals_of (g c) @ map equals_of plain))
        = Inr (clause_text (g c @ plain))"
    using build_equals [of "g _ @ plain"] by simp
  then show ?thesis by (induction cs) simp_all
qed

lemma pcs_clause_lines: "clause_lines pcs_build_forbidden f = Inr (expand_clause f)"
proof (cases "membership_atomics (get_descendant_literal_clauses f) = []")
  case True
  then show ?thesis
    using build_plain [OF True] descendants_atomic [of _ f]
    by (simp add: clause_lines_def expand_clause_def split_statements_atomic Let_def)
next
  case False
  let ?ds = "get_descendant_literal_clauses f"
  have "clause_lines pcs_build_forbidden f =
        map_err (\<lambda>p. pcs_build_forbidden (ForbiddenAndConjunction (p @ map equals_of (plain_atomics ?ds))))
          (map (\<lambda>combination. map equals_of (zip (map fst (membership_atomics ?ds)) combination))
             (product_lists (map snd (membership_atomics ?ds))))"
    using False descendants_atomic [of _ f]
    by (simp add: clause_lines_def split_statements_atomic product_of_membership)
  also have "\<dots> = Inr (expand_clause f)"
    using False by (simp add: build_combinations expand_clause_def Let_def)
  finally show ?thesis .
qed


lemma irace_clause_lines: "clause_lines irace_build_forbidden f = clause_lines pcs_build_forbidden f"
proof (cases "membership_atomics (get_descendant_literal_clauses f) = []")
  case True
  then have "irace_build_forbidden f = pcs_build_forbidden f" by (cases f) simp_all
  then show ?thesis
    using True descendants_atomic [of _ f]
    by (simp add: clause_lines_def split_statements_atomic split: sum.splits)
next
  case False
  then show ?thesis
    using descendants_atomic [of _ f] by (simp add: clause_lines_def split_statements_atomic)
qed

lemma pcs_forbidden_lines: "forbidden_lines pcs_build_forbidden fs = Inr (concat (map expand_clause fs))"
  by (induction fs) (simp_all add: pcs_clause_lines)

lemma irace_forbidden_lines: "forbidden_lines irace_build_forbidden fs = Inr (concat (map expand_clause fs))"
  by (induction fs) (simp_all add: pcs_clause_lines irace_clause_lines)

lemma forbidden_block_sorted:
  "forbidden_block ls =
     (let sorted_lines = sort ls
      in if sorted_lines = [] then []
         else [newline, newline] @ concat (map (\<lambda>l. l @ [newline]) sorted_lines))"
proof -
  have "(sort ls = []) = (ls = [])"
    using length_sort [of "\<lambda>x. x" ls] by (metis length_0_conv)
  then show ?thesis by (simp add: forbidden_block_def Let_def)
qed

lemma pcs_write_text:
  "pcs_write N cs = Inr written \<Longrightarrow>
   \<exists>head. written = head @ forbidden_block (concat (map expand_clause (forbidden_clauses cs)))"
  by (cases "write_params (pcs_build_hyperparameter N) (hyperparameters cs) []")
     (auto simp: pcs_write_def pcs_forbidden_lines Let_def)

lemma product_of_lengths:
  "foldr (*) (map length (map snd ms)) 1 = prod_list (map (\<lambda>(h, vs). length vs) ms)"
  by (induction ms) auto

text \<open>
  Claim C2, as amended. On write in the explicit dialect, the lines made from the stored forbidden
  clauses are those of the expansion in the words of the specification: for a clause
  with a membership atomic, one line per element of the Cartesian product of the value
  sets (their number is the product of the sizes), each a conjunction of one equality
  per membership atomic and all the plain atomics, and none in the membership form.
  The text that \<open>pcs_write\<close> returns ends with these lines, sorted, each followed by a
  newline, after an empty line.
\<close>

theorem pcs_write_forbidden_expansion:
  "forbidden_lines pcs_build_forbidden (forbidden_clauses cs) =
     Inr (concat (map expand_clause (forbidden_clauses cs)))
   \<and> (membership_atomics (get_descendant_literal_clauses f) \<noteq> [] \<longrightarrow>
        clause_lines pcs_build_forbidden f =
          Inr (map (\<lambda>combination.
                      clause_text (zip (map fst (membership_atomics (get_descendant_literal_clauses f)))
                                     combination
                                   @ plain_atomics (get_descendant_literal_clauses f)))
                 (product_lists (map snd (membership_atomics (get_descendant_literal_clauses f)))))
        \<and> length (expand_clause f) =
            prod_list (map (\<lambda>(h, vs). length vs)
                         (membership_atomics (get_descendant_literal_clauses f))))
   \<and> (\<forall>written. pcs_write N cs = Inr written \<longrightarrow>
        (\<exists>head. written = head @
           (let ls = sort (concat (map expand_clause (forbidden_clauses cs)))
            in if ls = [] then []
               else [newline, newline] @ concat (map (\<lambda>l. l @ [newline]) ls))))"
proof (intro conjI impI allI)
  show "forbidden_lines pcs_build_forbidden (forbidden_clauses cs) =
          Inr (concat (map expand_clause (forbidden_clauses cs)))"
    by (rule pcs_forbidden_lines)
next
  assume m: "membership_atomics (get_descendant_literal_clauses f) \<noteq> []"
  then show "clause_lines pcs_build_forbidden f =
          Inr (map (\<lambda>combination.
                      clause_text (zip (map fst (membership_atomics (get_descendant_literal_clauses f)))
                                     combination
                                   @ plain_atomics (get_descendant_literal_clauses f)))
                 (product_lists (map snd (membership_atomics (get_descendant_literal_clauses f)))))"
    by (simp add: pcs_clause_lines expand_clause_def Let_def)
next
  assume m: "membership_atomics (get_descendant_literal_clauses f) \<noteq> []"
  from m show "length (expand_clause f) =
      prod_list (map (\<lambda>(h, vs). length vs) (membership_atomics (get_descendant_literal_clauses f)))"
    using product_of_lengths [of "membership_atomics (get_descendant_literal_clauses f)"]
    by (simp add: expand_clause_def Let_def length_product_lists)
next
  fix written assume "pcs_write N cs = Inr written"
  then show "\<exists>head. written = head @
           (let ls = sort (concat (map expand_clause (forbidden_clauses cs)))
            in if ls = [] then []
               else [newline, newline] @ concat (map (\<lambda>l. l @ [newline]) ls))"
    using pcs_write_text [of N cs written] by (simp add: forbidden_block_sorted)
qed

text \<open>The clause \<^verbatim>\<open>{a in {1,2}, b=3}\<close>, its values met in the order 2, 1, gives
  exactly the two lines \<^verbatim>\<open>{a=1, b=3}\<close> and \<^verbatim>\<open>{a=2, b=3}\<close>, in this order.\<close>

theorem pcs_write_forbidden_expansion_witness:
  "membership_atomics (get_descendant_literal_clauses a_in_b_eq) \<noteq> []
   \<and> clause_lines pcs_build_forbidden a_in_b_eq = Inr [''{a=2, b=3}'', ''{a=1, b=3}'']
   \<and> length (expand_clause a_in_b_eq) = 2
   \<and> pcs_write no_numerics
        \<lparr>hyperparameters = [cat_a, cat_b], conditions = [], forbidden_clauses = [a_in_b_eq]\<rparr> =
      Inr (''a categorical {1, 2} [1]'' @ [newline] @ ''b categorical {3} [3]'' @ [newline, newline]
           @ ''{a=1, b=3}'' @ [newline] @ ''{a=2, b=3}'' @ [newline])"
proof -
  let ?cs = "\<lparr>hyperparameters = [cat_a, cat_b], conditions = [], forbidden_clauses = [a_in_b_eq]\<rparr>"
  have m: "membership_atomics (get_descendant_literal_clauses a_in_b_eq) \<noteq> []"
    by simp
  have cl: "clause_lines pcs_build_forbidden a_in_b_eq = Inr [''{a=2, b=3}'', ''{a=1, b=3}'']"
    and len: "length (expand_clause a_in_b_eq) = 2"
    using pcs_write_forbidden_expansion [of ?cs a_in_b_eq no_numerics] m
    by (simp_all add: clause_text_def equality_text_def)
  have "pcs_write no_numerics ?cs =
      Inr (''a categorical {1, 2} [1]'' @ [newline] @ ''b categorical {3} [3]'' @ [newline, newline]
           @ ''{a=1, b=3}'' @ [newline] @ ''{a=2, b=3}'' @ [newline])"
    by code_simp
  with m cl len show ?thesis by simp
qed

text \<open>
  The claim as it stands is for the write of either dialect. The compact dialect makes
  the same lines from the clause \<^verbatim>\<open>{a in {1,2}, b=3}\<close> and writes none of them:
  the text it returns holds the two declarations and no brace.
\<close>

theorem compact_write_emits_no_clause_counterexample:
  "forbidden_lines irace_build_forbidden [a_in_b_eq] = Inr [''{a=2, b=3}'', ''{a=1, b=3}'']
   \<and> irace_write no_numerics
        \<lparr>hyperparameters = [cat_a, cat_b], conditions = [], forbidden_clauses = [a_in_b_eq]\<rparr> =
      Inr (''a '' @ quote @ ''--a '' @ quote @ '' c (1,2)'' @ [newline]
           @ ''b '' @ quote @ ''--b '' @ quote @ '' c (3)'' @ [newline])
   \<and> CHR ''{'' \<notin> set (''a '' @ quote @ ''--a '' @ quote @ '' c (1,2)'' @ [newline]
                         @ ''b '' @ quote @ ''--b '' @ quote @ '' c (3)'' @ [newline])"
  by code_simp

text \<open>
  Claim C9. \<open>irace_write\<close> computes the lines of the forbidden clauses, which never
  fails, and does not write them: what it returns is what it returns for the space
  without its forbidden clauses.
\<close>

theorem irace_write_drops_forbidden:
  "(\<exists>ls. forbidden_lines irace_build_forbidden (forbidden_clauses cs) = Inr ls)
   \<and> irace_write N cs = irace_write N (cs\<lparr>forbidden_clauses := []\<rparr>)"
  by (simp add: irace_write_def irace_forbidden_lines split: sum.splits)

text \<open>A space with the clause \<^verbatim>\<open>{a in {1,2}, b=3}\<close> is written as the space without it.\<close>

theorem irace_write_drops_forbidden_witness:
  "irace_write no_numerics
     \<lparr>hyperparameters = [cat_a, cat_b], conditions = [], forbidden_clauses = [a_in_b_eq]\<rparr> =
   Inr (''a '' @ quote @ ''--a '' @ quote @ '' c (1,2)'' @ [newline]
        @ ''b '' @ quote @ ''--b '' @ quote @ '' c (3)'' @ [newline])"
proof -
  have "irace_write no_numerics
          \<lparr>hyperparameters = [cat_a, cat_b], conditions = [], forbidden_clauses = []\<rparr> =
        Inr (''a '' @ quote @ ''--a '' @ quote @ '' c (1,2)'' @ [newline]
             @ ''b '' @ quote @ ''--b '' @ quote @ '' c (3)'' @ [newline])"
    by code_simp
  then show ?thesis
    using irace_write_drops_forbidden
      [of "\<lparr>hyperparameters = [cat_a, cat_b], conditions = [], forbidden_clauses = [a_in_b_eq]\<rparr>"
          no_numerics]
    by simp
qed

section \<open>Conditions on write in the compact dialect\<close>

lemma write_params_names:
  "\<forall>h\<in>set hs. parseString pp_param_name (name h) \<noteq> None \<Longrightarrow>
   \<exists>written. write_params build hs buf = Inr written"
  by (induction hs arbitrary: buf) auto

lemma irace_write_conditions_refuses:
  "c \<in> set cs \<Longrightarrow> unsupported c \<Longrightarrow> \<exists>e. irace_write_conditions cs buf = Inl e"
proof (induction cs arbitrary: buf)
  case Nil
  then show ?case by simp
next
  case (Cons c' cs)
  show ?case
  proof (cases "irace_build_condition c'")
    case (Inl e)
    then show ?thesis by simp
  next
    case (Inr t)
    with Cons.prems have "c \<in> set cs" by (cases c') auto
    with Cons.IH Cons.prems(2) Inr show ?thesis by simp
  qed
qed

lemma irace_write_conditions_first_refusal:
  "\<forall>c'\<in>set pre. \<exists>t. irace_build_condition c' = Inr t \<Longrightarrow> unsupported c \<Longrightarrow>
   irace_write_conditions (pre @ c # post) buf = Inl UnsupportedConstructError"
proof (induction pre arbitrary: buf)
  case Nil
  then show ?case by (cases c) simp_all
next
  case (Cons c' pre)
  then obtain t where "irace_build_condition c' = Inr t" by auto
  with Cons show ?case by simp
qed

text \<open>
  Claim C6, as amended. \<^verbatim>\<open>build_condition\<close> of the compact dialect answers an
  OR-conjunction and a not-equals condition with \<open>UnsupportedConstructError\<close>. A
  space that holds such a condition at top level is never written: \<open>irace_write\<close>
  fails, and the failure is \<open>UnsupportedConstructError\<close> when the write gets as far
  as that condition, that is when every name passes the name check, which comes first,
  and the conditions before it are written (they are equals and membership leaves).
\<close>

theorem irace_write_unsupported_construct:
  "(unsupported c \<longrightarrow> irace_build_condition c = Inl UnsupportedConstructError)
   \<and> (c \<in> set (conditions cs) \<and> unsupported c \<longrightarrow> (\<exists>e. irace_write N cs = Inl e))
   \<and> (conditions cs = pre @ c # post \<and> unsupported c
        \<and> (\<forall>c'\<in>set pre. \<exists>t. irace_build_condition c' = Inr t)
        \<and> (\<forall>h\<in>set (hyperparameters cs). parseString pp_param_name (name h) \<noteq> None)
      \<longrightarrow> irace_write N cs = Inl UnsupportedConstructError)"
proof (intro conjI impI)
  assume "unsupported c"
  then show "irace_build_condition c = Inl UnsupportedConstructError"
    by (cases c) simp_all
next
  assume "c \<in> set (conditions cs) \<and> unsupported c"
  then obtain e where "irace_write_conditions (conditions cs) [] = Inl e"
    using irace_write_conditions_refuses by blast
  then show "\<exists>e. irace_write N cs = Inl e"
    by (cases "write_params (irace_build_hyperparameter N) (hyperparameters cs) []")
       (simp_all add: irace_write_def)
next
  assume a: "conditions cs = pre @ c # post \<and> unsupported c
        \<and> (\<forall>c'\<in>set pre. \<exists>t. irace_build_condition c' = Inr t)
        \<and> (\<forall>h\<in>set (hyperparameters cs). parseString pp_param_name (name h) \<noteq> None)"
  then obtain written where
    "write_params (irace_build_hyperparameter N) (hyperparameters cs) [] = Inr written"
    using write_params_names by blast
  moreover have "irace_write_conditions (conditions cs) [] = Inl UnsupportedConstructError"
    using a irace_write_conditions_first_refusal [of pre c post "[]"] by simp
  ultimately show "irace_write N cs = Inl UnsupportedConstructError"
    by (simp add: irace_write_def)
qed

text \<open>
  A space whose second condition is an OR-conjunction, on another child than the equals
  condition before it.
\<close>

theorem irace_write_unsupported_construct_witness:
  "unsupported c_if_a_or_b
   \<and> irace_build_condition b_if_a_is_1 = Inr (''b | a %in% c(1) '')
   \<and> parseString pp_param_name (name cat_a) \<noteq> None
   \<and> parseString pp_param_name (name cat_b) \<noteq> None
   \<and> parseString pp_param_name (name cat_c) \<noteq> None
   \<and> irace_build_condition c_if_a_or_b = Inl UnsupportedConstructError
   \<and> irace_write no_numerics
        \<lparr>hyperparameters = [cat_a, cat_b, cat_c], conditions = [b_if_a_is_1, c_if_a_or_b],
         forbidden_clauses = []\<rparr> = Inl UnsupportedConstructError"
proof -
  let ?cs = "\<lparr>hyperparameters = [cat_a, cat_b, cat_c], conditions = [b_if_a_is_1, c_if_a_or_b],
              forbidden_clauses = []\<rparr> :: unit configuration_space"
  have names: "parseString pp_param_name (name cat_a) \<noteq> None"
    "parseString pp_param_name (name cat_b) \<noteq> None"
    "parseString pp_param_name (name cat_c) \<noteq> None"
    by code_simp+
  have pre: "irace_build_condition b_if_a_is_1 = Inr (''b | a %in% c(1) '')"
    by simp
  have "conditions ?cs = [b_if_a_is_1] @ c_if_a_or_b # []" by simp
  with names pre
  have "irace_build_condition c_if_a_or_b = Inl UnsupportedConstructError
        \<and> irace_write no_numerics ?cs = Inl UnsupportedConstructError"
    using irace_write_unsupported_construct
      [of c_if_a_or_b ?cs no_numerics "[b_if_a_is_1]" "[]"]
    by simp
  with names pre show ?thesis by simp
qed

text \<open>
  The claim as it stands is for every space that holds an OR-conjunction. The names are
  checked before the conditions are built: with \<^verbatim>\<open>{a\<close> for the name of the first
  hyperparameter the write of a space with an OR-conjunction ends with
  \<open>IllegalNameError\<close>. And \<^verbatim>\<open>build_condition\<close> reads \<^verbatim>\<open>condition.parent\<close> of an
  AND-conjunction, which has none: an OR-conjunction inside an AND-conjunction is not
  reached, the write ends with \<open>AttributeError\<close>.
\<close>

theorem unsupported_construct_not_reached_counterexample:
  "irace_write no_numerics
     \<lparr>hyperparameters = [Categorical ''{a'' [''1'', ''2''] ''1'', cat_b, cat_c],
      conditions = [OrConjunction [EqualsCondition cat_c (Categorical ''{a'' [''1'', ''2''] ''1'') ''1'',
                                   EqualsCondition cat_c cat_b ''3'']],
      forbidden_clauses = []\<rparr> = Inl (IllegalNameError ''{a'')
   \<and> irace_write no_numerics
        \<lparr>hyperparameters = [cat_a, cat_b, cat_c],
         conditions = [AndConjunction [c_if_a_or_b, EqualsCondition cat_c cat_b ''3'']],
         forbidden_clauses = []\<rparr> = Inl AttributeError"
  by code_simp

section \<open>The name check on write\<close>

text \<open>
  Claim C7. The check of a name on write is \<^verbatim>\<open>pp_param_name.parseString(name)\<close>,
  which accepts every name that begins, after white space, with a permitted character.
  The name \<^verbatim>\<open>a{b\<close> has the character \<^verbatim>\<open>{\<close>, which is not permitted, and both
  dialects write a space that declares it, without an error.
\<close>

theorem write_accepts_illegal_name:
  "CHR ''{'' \<notin> set name_chars
   \<and> pcs_write no_numerics
        \<lparr>hyperparameters = [Categorical ''a{b'' [''x''] ''x''], conditions = [],
         forbidden_clauses = []\<rparr> = Inr ''a{b categorical {x} [x]''
   \<and> irace_write no_numerics
        \<lparr>hyperparameters = [Categorical ''a{b'' [''x''] ''x''], conditions = [],
         forbidden_clauses = []\<rparr> =
      Inr (''a{b '' @ quote @ ''--a{b '' @ quote @ '' c (x)'' @ [newline])"
  by code_simp

section \<open>The classification of a line on read\<close>

lemma bracket_or_brace:
  "Literal True ''['' s \<noteq> None \<Longrightarrow> Literal True ''{'' s = None"
  by (auto simp: Literal_def Let_def split: if_splits)

lemma pcs_grammars_exclusive:
  "parseString pcs_pp_cont_param line \<noteq> None \<Longrightarrow> parseString pcs_pp_cat_param line = None"
proof -
  assume a: "parseString pcs_pp_cont_param line \<noteq> None"
  then obtain t1 r1 where 1: "pp_param_name line = Some (t1, r1)"
    by (auto simp: parseString_def pcs_pp_cont_param_def split: option.splits)
  with a obtain t2 r2 where 2: "pp_param_type r1 = Some (t2, r2)"
    by (auto simp: parseString_def pcs_pp_cont_param_def split: option.splits)
  with a 1 have "Literal True ''['' r2 \<noteq> None"
    by (auto simp: parseString_def pcs_pp_cont_param_def split: option.splits)
  then have "Literal True ''{'' r2 = None" by (rule bracket_or_brace)
  with 1 2 show ?thesis
    by (simp add: parseString_def pcs_pp_cat_param_def)
qed

lemma irace_grammars_exclusive:
  "parseString irace_pp_cont_param line \<noteq> None \<Longrightarrow> parseString irace_pp_cat_param line = None"
proof -
  assume a: "parseString irace_pp_cont_param line \<noteq> None"
  then obtain t1 r1 where 1: "pp_param_name line = Some (t1, r1)"
    by (auto simp: parseString_def irace_pp_cont_param_def split: option.splits)
  with a have "Literal True ''['' r1 \<noteq> None"
    by (auto simp: parseString_def irace_pp_cont_param_def split: option.splits)
  then have "Literal True ''{'' r1 = None" by (rule bracket_or_brace)
  with 1 show ?thesis
    by (simp add: parseString_def irace_pp_cat_param_def)
qed

lemma strip_keeps:
  assumes "c \<in> set s" "c \<notin> set py_space"
  shows "c \<in> set (strip s)"
proof -
  let ?P = "\<lambda>c. c \<in> set py_space"
  have keep: "c \<in> set (dropWhile ?P xs)" if "c \<in> set xs" for xs
  proof -
    have "c \<notin> set (takeWhile ?P xs)" using assms(2) by (auto dest: set_takeWhileD)
    moreover have "set xs = set (takeWhile ?P xs) \<union> set (dropWhile ?P xs)"
      by (metis set_append takeWhile_dropWhile_id)
    ultimately show ?thesis using that by auto
  qed
  have "c \<in> set (rev (dropWhile ?P s))" using keep [OF assms(1)] by simp
  then have "c \<in> set (dropWhile ?P (rev (dropWhile ?P s)))" by (rule keep)
  then show ?thesis by (simp add: strip_def)
qed

lemma declaration_not_blank:
  "\<not> (CHR ''}'' \<notin> set line \<and> CHR '']'' \<notin> set line) \<Longrightarrow> length (strip line) \<noteq> 0"
proof -
  assume "\<not> (CHR ''}'' \<notin> set line \<and> CHR '']'' \<notin> set line)"
  then consider "CHR ''}'' \<in> set line" | "CHR '']'' \<in> set line" by blast
  then have "\<exists>c. c \<in> set (strip line)"
  proof cases
    case 1
    then show ?thesis using strip_keeps [of "CHR ''}''" line] by (auto simp: py_space_def)
  next
    case 2
    then show ?thesis using strip_keeps [of "CHR '']''" line] by (auto simp: py_space_def)
  qed
  then show ?thesis by auto
qed

lemma bind_err_assoc: "bind_err (bind_err m f) g = bind_err m (\<lambda>x. bind_err (f x) g)"
  by (cases m) simp_all

lemma read_line_classify:
  assumes "\<And>l. parseString pp_cont l \<noteq> None \<Longrightarrow> parseString pp_cat l = None"
  shows "read_line pp_cond pp_cont pp_cat decode_cont decode_cat st raw =
         line_effect decode_cont decode_cat st (clean_line raw)
           (classify pp_cond pp_cont pp_cat (clean_line raw))"
proof (cases "parseString pp_cont (clean_line raw)")
  case None
  then show ?thesis
    using declaration_not_blank [of "clean_line raw"]
    by (auto simp: read_line_def classify_def Let_def declare_hyperparameter_def bind_err_assoc
             split: option.splits)
next
  case (Some ts)
  then have "parseString pp_cat (clean_line raw) = None" using assms by simp
  with Some show ?thesis
    using declaration_not_blank [of "clean_line raw"]
    by (cases "decode_cont ts")
       (auto simp: read_line_def classify_def Let_def declare_hyperparameter_def bind_err_assoc
             split: option.splits)
qed


text \<open>
  Claim C3, as amended. In both dialects the body of the first loop does to the state
  what the class of the cleaned line says: a line with \<^verbatim>\<open>|\<close> is a condition, and
  the read fails with \<open>UnparsableConditionError\<close> when the condition grammar does not
  match; else a line with neither \<^verbatim>\<open>}\<close> nor \<^verbatim>\<open>]\<close> is skipped; else a line
  wrapped in braces is kept as a forbidden literal; else the line is a declaration,
  decoded by the continuous grammar if it matches and else by the categorical grammar
  if it matches, and the read fails with \<open>UnparsableParameterError\<close> when neither
  does. A grammar matches when it matches a prefix of the line, and no line is matched
  by both declaration grammars, so trying both, as the source does, is the same as
  taking the first that matches.
\<close>

theorem read_line_classification:
  "pcs_read_line N st raw =
     line_effect (pcs_decode_cont N) pcs_decode_cat st (clean_line raw)
       (classify pcs_pp_condition pcs_pp_cont_param pcs_pp_cat_param (clean_line raw))
   \<and> irace_read_line N st raw =
     line_effect (irace_decode_cont N) irace_decode_cat st (clean_line raw)
       (classify irace_pp_condition irace_pp_cont_param irace_pp_cat_param (clean_line raw))
   \<and> (parseString pcs_pp_cont_param line \<noteq> None \<longrightarrow> parseString pcs_pp_cat_param line = None)
   \<and> (parseString irace_pp_cont_param line \<noteq> None \<longrightarrow> parseString irace_pp_cat_param line = None)"
proof (intro conjI impI)
  show "pcs_read_line N st raw =
     line_effect (pcs_decode_cont N) pcs_decode_cat st (clean_line raw)
       (classify pcs_pp_condition pcs_pp_cont_param pcs_pp_cat_param (clean_line raw))"
    unfolding pcs_read_line_def by (rule read_line_classify) (rule pcs_grammars_exclusive)
  show "irace_read_line N st raw =
     line_effect (irace_decode_cont N) irace_decode_cat st (clean_line raw)
       (classify irace_pp_condition irace_pp_cont_param irace_pp_cat_param (clean_line raw))"
    unfolding irace_read_line_def by (rule read_line_classify) (rule irace_grammars_exclusive)
qed (simp_all add: pcs_grammars_exclusive irace_grammars_exclusive)

text \<open>A condition with a comment, a line that is skipped, a forbidden literal, a
  categorical declaration, and a declaration that no grammar matches.\<close>

theorem read_line_classification_witness:
  "pcs_read_line no_numerics read_start ''b | a in {x}  # only with x'' =
     Inr (read_start\<lparr>condition_list := [[''b'', ''|'', ''a'', ''in'', ''{'', ''x'', ''}'']]\<rparr>)
   \<and> pcs_read_line no_numerics read_start ''a categorical (x, y) (x)'' = Inr read_start
   \<and> irace_read_line no_numerics read_start ''{a=x, b=u}'' =
     Inr (read_start\<lparr>forbidden_list := [''{a=x, b=u}'']\<rparr>)
   \<and> irace_read_line no_numerics read_start ''a {x, y} [x]'' =
     Inr (read_start\<lparr>configuration_space :=
            \<lparr>hyperparameters = [Categorical ''a'' [''x'', ''y''] ''x''], conditions = [],
             forbidden_clauses = []\<rparr>\<rparr>)
   \<and> pcs_read_line no_numerics read_start ''a categorical {x, y} (x)'' =
     Inl (UnparsableParameterError ''a categorical {x, y} (x)'')
   \<and> parseString pcs_pp_cont_param ''c real [0, 1] [0]'' \<noteq> None
   \<and> parseString pcs_pp_cat_param ''c real [0, 1] [0]'' = None"
proof -
  note t = read_line_classification [of no_numerics read_start _ "''c real [0, 1] [0]''"]
  have c: "clean_line ''b | a in {x}  # only with x'' = ''b | a in {x}''"
    "clean_line ''a categorical (x, y) (x)'' = ''a categorical (x, y) (x)''"
    "clean_line ''{a=x, b=u}'' = ''{a=x, b=u}''"
    "clean_line ''a {x, y} [x]'' = ''a {x, y} [x]''"
    "clean_line ''a categorical {x, y} (x)'' = ''a categorical {x, y} (x)''"
    by code_simp+
  have k: "classify pcs_pp_condition pcs_pp_cont_param pcs_pp_cat_param ''b | a in {x}'' =
           ConditionLine [''b'', ''|'', ''a'', ''in'', ''{'', ''x'', ''}'']"
    "classify pcs_pp_condition pcs_pp_cont_param pcs_pp_cat_param ''a categorical (x, y) (x)'' =
       Skipped"
    "classify irace_pp_condition irace_pp_cont_param irace_pp_cat_param ''{a=x, b=u}'' =
       ForbiddenLiteral"
    "classify irace_pp_condition irace_pp_cont_param irace_pp_cat_param ''a {x, y} [x]'' =
       CategoricalDeclaration [''a'', ''{'', ''x'', '','', ''y'', ''}'', ''['', ''x'', '']'']"
    "classify pcs_pp_condition pcs_pp_cont_param pcs_pp_cat_param ''a categorical {x, y} (x)'' =
       UnmatchedDeclaration"
    by code_simp+
  have 6: "parseString pcs_pp_cont_param ''c real [0, 1] [0]'' \<noteq> None"
    by code_simp
  have d: "declare_hyperparameter read_start
             (irace_decode_cat [''a'', ''{'', ''x'', '','', ''y'', ''}'', ''['', ''x'', '']'']) =
           Inr (read_start\<lparr>configuration_space :=
            \<lparr>hyperparameters = [Categorical ''a'' [''x'', ''y''] ''x''], conditions = [],
             forbidden_clauses = []\<rparr>\<rparr> :: unit read_state)"
    by code_simp
  have s: "condition_list (read_start :: unit read_state) = []"
    "forbidden_list (read_start :: unit read_state) = []"
    by (simp_all add: read_start_def)
  show ?thesis
    using t [of "''b | a in {x}  # only with x''"] t [of "''a categorical (x, y) (x)''"]
      t [of "''{a=x, b=u}''"] t [of "''a {x, y} [x]''"] t [of "''a categorical {x, y} (x)''"]
    by (simp add: c k 6 d s)
qed

text \<open>
  The claim as it stands has the first grammar win that matches the full line, and the
  read fail when none does. Neither declaration grammar matches all of the line
  \<^verbatim>\<open>a categorical {x} [x] junk\<close>, nor of \<^verbatim>\<open>a {x} [x] junk\<close> in the compact dialect;
  the read decodes each as a categorical declaration and returns a space.
\<close>

theorem full_line_match_counterexample:
  "\<not> matches_full_line pcs_pp_cont_param (clean_line ''a categorical {x} [x] junk'')
   \<and> \<not> matches_full_line pcs_pp_cat_param (clean_line ''a categorical {x} [x] junk'')
   \<and> pcs_read no_numerics [''a categorical {x} [x] junk''] =
       Inr \<lparr>hyperparameters = [Categorical ''a'' [''x''] ''x''], conditions = [],
            forbidden_clauses = []\<rparr>
   \<and> \<not> matches_full_line irace_pp_cont_param (clean_line ''a {x} [x] junk'')
   \<and> \<not> matches_full_line irace_pp_cat_param (clean_line ''a {x} [x] junk'')
   \<and> irace_read no_numerics [''a {x} [x] junk''] =
       Inr \<lparr>hyperparameters = [Categorical ''a'' [''x''] ''x''], conditions = [],
            forbidden_clauses = []\<rparr>"
  by code_simp

section \<open>What the first two loops keep and refuse\<close>

lemma line_effect_lists:
  assumes "line_effect dn dk st line cl = Inr st'"
  shows "forbidden_list st' = forbidden_list st @ (if cl = ForbiddenLiteral then [line] else [])"
    and "condition_list st' = condition_list st @ (case cl of ConditionLine c \<Rightarrow> [c] | _ \<Rightarrow> [])"
    and "conditions (configuration_space st') = conditions (configuration_space st)"
    and "forbidden_clauses (configuration_space st') = forbidden_clauses (configuration_space st)"
  using assms
  by (cases cl; auto simp: declare_hyperparameter_def bind_err_def add_hyperparameter_def
        split: sum.splits if_splits)+

lemma line_effect_unmatched:
  "line_effect dn dk st line cl = Inr st' \<Longrightarrow> cl \<noteq> UnmatchedCondition \<and> cl \<noteq> UnmatchedDeclaration"
  by (cases cl) auto

lemma classify_condition:
  "(case classify pc pn pk line of ConditionLine c \<Rightarrow> [c] | _ \<Rightarrow> []) =
   (case (if CHR ''|'' \<in> set line then parseString pc line else None) of None \<Rightarrow> [] | Some c \<Rightarrow> [c])"
  by (auto simp: classify_def split: option.splits)

lemma read_lines_lists:
  assumes body: "\<And>st raw. body st raw =
                  line_effect dn dk st (clean_line raw) (classify pc pn pk (clean_line raw))"
  shows "read_lines body raws st = Inr st' \<Longrightarrow>
         forbidden_list st' = forbidden_list st @ kept_forbidden pc pn pk raws
         \<and> condition_list st' = condition_list st @ parsed_conditions pc raws
         \<and> conditions (configuration_space st') = conditions (configuration_space st)
         \<and> forbidden_clauses (configuration_space st') = forbidden_clauses (configuration_space st)
         \<and> (\<forall>raw\<in>set raws. classify pc pn pk (clean_line raw) \<noteq> UnmatchedCondition
                             \<and> classify pc pn pk (clean_line raw) \<noteq> UnmatchedDeclaration)"
proof (induction raws arbitrary: st)
  case Nil
  then show ?case by (simp add: kept_forbidden_def parsed_conditions_def map_filter_simps)
next
  case (Cons raw raws)
  then obtain s where s: "body st raw = Inr s" and rest: "read_lines body raws s = Inr st'"
    by (cases "body st raw") auto
  from s have e: "line_effect dn dk st (clean_line raw) (classify pc pn pk (clean_line raw)) = Inr s"
    by (simp add: body)
  note l = line_effect_lists [OF e] line_effect_unmatched [OF e]
  from Cons.IH [OF rest] l show ?case
    by (auto simp: kept_forbidden_def parsed_conditions_def map_filter_simps classify_condition
             split: option.splits)
qed

lemma read_forbidden_parsed:
  "read_forbidden fl cs = Inr cs' \<Longrightarrow> l \<in> set fl \<Longrightarrow> parseString pp_forbidden_clause l \<noteq> None"
proof (induction fl arbitrary: cs)
  case Nil
  then show ?case by simp
next
  case (Cons f fl)
  show ?case
  proof (cases "parseString pp_forbidden_clause f")
    case None
    with Cons.prems show ?thesis by simp
  next
    case (Some ts)
    with Cons.prems(1) obtain cl where
      "read_forbidden fl (add_forbidden_clause cs (ForbiddenAndConjunction cl)) = Inr cs'"
      by (cases "forbidden_triples cs (drop 1 ts) [] []") auto
    with Cons.IH Cons.prems(2) Some show ?thesis by auto
  qed
qed


lemma read_lines_matched:
  assumes body: "\<And>st raw. body st raw =
                  line_effect dn dk st (clean_line raw) (classify pc pn pk (clean_line raw))"
    and rd: "read_lines body raws read_start = Inr st"
    and fb: "read_forbidden (forbidden_list st) (configuration_space st) = Inr cs"
    and raw: "raw \<in> set raws" "marked (clean_line raw)"
  shows "matched pc pn pk (clean_line raw)"
proof -
  let ?l = "clean_line raw"
  note r = read_lines_lists [of body dn dk pc pn pk raws read_start st, OF body rd]
  from r raw(1) have u: "classify pc pn pk ?l \<noteq> UnmatchedCondition"
    "classify pc pn pk ?l \<noteq> UnmatchedDeclaration" by auto
  show ?thesis
  proof (cases "classify pc pn pk ?l = ForbiddenLiteral")
    case True
    with r raw(1) have "?l \<in> set (forbidden_list st)"
      by (auto simp: kept_forbidden_def read_start_def)
    then have "parseString pp_forbidden_clause ?l \<noteq> None"
      using read_forbidden_parsed [OF fb] by blast
    with True show ?thesis
      by (auto simp: matched_def classify_def split: if_splits option.splits)
  next
    case False
    with u raw(2) show ?thesis
      by (auto simp: matched_def classify_def marked_def split: if_splits option.splits)
  qed
qed

lemma pcs_body:
  "pcs_read_line N st raw =
     line_effect (pcs_decode_cont N) pcs_decode_cat st (clean_line raw)
       (classify pcs_pp_condition pcs_pp_cont_param pcs_pp_cat_param (clean_line raw))"
  unfolding pcs_read_line_def by (rule read_line_classify) (rule pcs_grammars_exclusive)

lemma irace_body:
  "irace_read_line N st raw =
     line_effect (irace_decode_cont N) irace_decode_cat st (clean_line raw)
       (classify irace_pp_condition irace_pp_cont_param irace_pp_cat_param (clean_line raw))"
  unfolding irace_read_line_def by (rule read_line_classify) (rule irace_grammars_exclusive)

lemma pcs_read_phases:
  "pcs_read N raws = Inr cs \<Longrightarrow>
   \<exists>st cs1 groups v. read_lines (pcs_read_line N) raws read_start = Inr st
     \<and> read_forbidden (forbidden_list st) (configuration_space st) = Inr cs1
     \<and> conditions_per_child (condition_list st) [] = Inr groups
     \<and> pcs_read_conditions groups (cs1, no_locals) = Inr (cs, v)"
  by (auto simp: pcs_read_def bind_err_def split: sum.splits)

lemma irace_read_phases:
  "irace_read N raws = Inr cs \<Longrightarrow>
   \<exists>st cs1 groups. read_lines (irace_read_line N) raws read_start = Inr st
     \<and> read_forbidden (forbidden_list st) (configuration_space st) = Inr cs1
     \<and> conditions_per_child (condition_list st) [] = Inr groups
     \<and> irace_read_conditions groups cs1 = Inr cs"
  by (auto simp: irace_read_def bind_err_def split: sum.splits)

text \<open>
  Claim C8, as amended. A line with none of \<^verbatim>\<open>|\<close>, \<^verbatim>\<open>}\<close> and \<^verbatim>\<open>]\<close> is
  skipped without an error, whatever it holds. A line with \<^verbatim>\<open>|\<close> that the condition
  grammar does not match ends the read with \<open>UnparsableConditionError\<close>, and a marked
  line without \<^verbatim>\<open>|\<close>, not wrapped in braces, that neither declaration grammar
  matches ends it with \<open>UnparsableParameterError\<close>. A read returns a space only when
  every marked line was matched by the grammar of its class.
\<close>

theorem read_unmatched_lines:
  "(\<not> marked (clean_line raw) \<longrightarrow>
      pcs_read_line N st raw = Inr st \<and> irace_read_line N st raw = Inr st)
   \<and> (CHR ''|'' \<in> set (clean_line raw) \<and> parseString pcs_pp_condition (clean_line raw) = None \<longrightarrow>
        pcs_read_line N st raw = Inl (UnparsableConditionError (clean_line raw)))
   \<and> (CHR ''|'' \<in> set (clean_line raw) \<and> parseString irace_pp_condition (clean_line raw) = None \<longrightarrow>
        irace_read_line N st raw = Inl (UnparsableConditionError (clean_line raw)))
   \<and> (marked (clean_line raw) \<and> CHR ''|'' \<notin> set (clean_line raw)
        \<and> \<not> (startswith (clean_line raw) ''{'' \<and> endswith (clean_line raw) ''}'')
        \<and> \<not> matched pcs_pp_condition pcs_pp_cont_param pcs_pp_cat_param (clean_line raw) \<longrightarrow>
        pcs_read_line N st raw = Inl (UnparsableParameterError (clean_line raw)))
   \<and> (marked (clean_line raw) \<and> CHR ''|'' \<notin> set (clean_line raw)
        \<and> \<not> (startswith (clean_line raw) ''{'' \<and> endswith (clean_line raw) ''}'')
        \<and> \<not> matched irace_pp_condition irace_pp_cont_param irace_pp_cat_param (clean_line raw) \<longrightarrow>
        irace_read_line N st raw = Inl (UnparsableParameterError (clean_line raw)))
   \<and> (pcs_read N raws = Inr cs \<and> raw \<in> set raws \<and> marked (clean_line raw) \<longrightarrow>
        matched pcs_pp_condition pcs_pp_cont_param pcs_pp_cat_param (clean_line raw))
   \<and> (irace_read N raws = Inr cs \<and> raw \<in> set raws \<and> marked (clean_line raw) \<longrightarrow>
        matched irace_pp_condition irace_pp_cont_param irace_pp_cat_param (clean_line raw))"
proof (intro conjI impI)
  assume "\<not> marked (clean_line raw)"
  then show "pcs_read_line N st raw = Inr st" "irace_read_line N st raw = Inr st"
    by (simp_all add: pcs_body irace_body classify_def marked_def)
next
  assume "CHR ''|'' \<in> set (clean_line raw) \<and> parseString pcs_pp_condition (clean_line raw) = None"
  then show "pcs_read_line N st raw = Inl (UnparsableConditionError (clean_line raw))"
    by (simp add: pcs_body classify_def)
next
  assume "CHR ''|'' \<in> set (clean_line raw) \<and> parseString irace_pp_condition (clean_line raw) = None"
  then show "irace_read_line N st raw = Inl (UnparsableConditionError (clean_line raw))"
    by (simp add: irace_body classify_def)
next
  assume "marked (clean_line raw) \<and> CHR ''|'' \<notin> set (clean_line raw)
        \<and> \<not> (startswith (clean_line raw) ''{'' \<and> endswith (clean_line raw) ''}'')
        \<and> \<not> matched pcs_pp_condition pcs_pp_cont_param pcs_pp_cat_param (clean_line raw)"
  then show "pcs_read_line N st raw = Inl (UnparsableParameterError (clean_line raw))"
    by (auto simp: pcs_body classify_def marked_def matched_def)
next
  assume "marked (clean_line raw) \<and> CHR ''|'' \<notin> set (clean_line raw)
        \<and> \<not> (startswith (clean_line raw) ''{'' \<and> endswith (clean_line raw) ''}'')
        \<and> \<not> matched irace_pp_condition irace_pp_cont_param irace_pp_cat_param (clean_line raw)"
  then show "irace_read_line N st raw = Inl (UnparsableParameterError (clean_line raw))"
    by (auto simp: irace_body classify_def marked_def matched_def)
next
  assume a: "pcs_read N raws = Inr cs \<and> raw \<in> set raws \<and> marked (clean_line raw)"
  then obtain st cs1 where "read_lines (pcs_read_line N) raws read_start = Inr st"
    "read_forbidden (forbidden_list st) (configuration_space st) = Inr cs1"
    using pcs_read_phases by blast
  with a show "matched pcs_pp_condition pcs_pp_cont_param pcs_pp_cat_param (clean_line raw)"
    using read_lines_matched [of "pcs_read_line N", OF pcs_body] by blast
next
  assume a: "irace_read N raws = Inr cs \<and> raw \<in> set raws \<and> marked (clean_line raw)"
  then obtain st cs1 where "read_lines (irace_read_line N) raws read_start = Inr st"
    "read_forbidden (forbidden_list st) (configuration_space st) = Inr cs1"
    using irace_read_phases by blast
  with a show "matched irace_pp_condition irace_pp_cont_param irace_pp_cat_param (clean_line raw)"
    using read_lines_matched [of "irace_read_line N", OF irace_body] by blast
qed


text \<open>A read of three lines, each marked and matched, and a line without a mark.\<close>

theorem read_unmatched_lines_witness:
  "\<not> marked (clean_line ''x integer (1, 10) (5)'')
   \<and> pcs_read_line no_numerics read_start ''x integer (1, 10) (5)'' = Inr read_start
   \<and> irace_read_line no_numerics read_start ''x integer (1, 10) (5)'' = Inr read_start
   \<and> pcs_read_line no_numerics read_start ''b | a'' = Inl (UnparsableConditionError ''b | a'')
   \<and> irace_read_line no_numerics read_start ''b | a'' = Inl (UnparsableConditionError ''b | a'')
   \<and> pcs_read_line no_numerics read_start ''a (x) [x]'' = Inl (UnparsableParameterError ''a (x) [x]'')
   \<and> irace_read_line no_numerics read_start ''a (x) [x]'' = Inl (UnparsableParameterError ''a (x) [x]'')
   \<and> pcs_read no_numerics [''a categorical {x, y} [x]'', ''b categorical {u} [u]'', ''{a=y, b=u}'', ''b | a in {x}''] =
       Inr \<lparr>hyperparameters = [Categorical ''a'' [''x'', ''y''] ''x'', Categorical ''b'' [''u''] ''u''],
            conditions = [InCondition (Categorical ''b'' [''u''] ''u'')
                            (Categorical ''a'' [''x'', ''y''] ''x'') [''x'']],
            forbidden_clauses =
              [ForbiddenAndConjunction
                 [ForbiddenEqualsClause (Categorical ''a'' [''x'', ''y''] ''x'') ''y'',
                  ForbiddenEqualsClause (Categorical ''b'' [''u''] ''u'') ''u'']]\<rparr>
   \<and> matched pcs_pp_condition pcs_pp_cont_param pcs_pp_cat_param (clean_line ''{a=y, b=u}'')
   \<and> irace_read no_numerics [''a {x, y} [x]'', ''b {u} [u]'', ''b | a in {x}''] =
       Inr \<lparr>hyperparameters = [Categorical ''a'' [''x'', ''y''] ''x'', Categorical ''b'' [''u''] ''u''],
            conditions = [EqualsCondition (Categorical ''b'' [''u''] ''u'')
                            (Categorical ''a'' [''x'', ''y''] ''x'') ''x''],
            forbidden_clauses = []\<rparr>
   \<and> matched irace_pp_condition irace_pp_cont_param irace_pp_cat_param (clean_line ''b | a in {x}'')"
proof -
  let ?pcs = "[''a categorical {x, y} [x]'', ''b categorical {u} [u]'', ''{a=y, b=u}'', ''b | a in {x}'']"
  let ?irace = "[''a {x, y} [x]'', ''b {u} [u]'', ''b | a in {x}'']"
  let ?p = "\<lparr>hyperparameters = [Categorical ''a'' [''x'', ''y''] ''x'', Categorical ''b'' [''u''] ''u''],
            conditions = [InCondition (Categorical ''b'' [''u''] ''u'')
                            (Categorical ''a'' [''x'', ''y''] ''x'') [''x'']],
            forbidden_clauses =
              [ForbiddenAndConjunction
                 [ForbiddenEqualsClause (Categorical ''a'' [''x'', ''y''] ''x'') ''y'',
                  ForbiddenEqualsClause (Categorical ''b'' [''u''] ''u'') ''u'']]\<rparr> :: unit configuration_space"
  let ?i = "\<lparr>hyperparameters = [Categorical ''a'' [''x'', ''y''] ''x'', Categorical ''b'' [''u''] ''u''],
            conditions = [EqualsCondition (Categorical ''b'' [''u''] ''u'')
                            (Categorical ''a'' [''x'', ''y''] ''x'') ''x''],
            forbidden_clauses = []\<rparr> :: unit configuration_space"
  have c: "clean_line ''x integer (1, 10) (5)'' = ''x integer (1, 10) (5)''"
    "clean_line ''b | a'' = ''b | a''" "clean_line ''a (x) [x]'' = ''a (x) [x]''"
    "clean_line ''{a=y, b=u}'' = ''{a=y, b=u}''" "clean_line ''b | a in {x}'' = ''b | a in {x}''"
    by code_simp+
  have m: "\<not> marked ''x integer (1, 10) (5)''" "marked ''a (x) [x]''" "marked ''{a=y, b=u}''"
    "marked ''b | a in {x}''"
    by (simp_all add: marked_def)
  have n: "parseString pcs_pp_condition ''b | a'' = None"
    "parseString irace_pp_condition ''b | a'' = None"
    "\<not> matched pcs_pp_condition pcs_pp_cont_param pcs_pp_cat_param ''a (x) [x]''"
    "\<not> matched irace_pp_condition irace_pp_cont_param irace_pp_cat_param ''a (x) [x]''"
    "\<not> (startswith ''a (x) [x]'' ''{'' \<and> endswith ''a (x) [x]'' ''}'')"
    by code_simp+
  have r: "pcs_read no_numerics ?pcs = Inr ?p" "irace_read no_numerics ?irace = Inr ?i"
    by code_simp+
  note t = read_unmatched_lines [of _ no_numerics read_start]
  show ?thesis
    using t [of "''x integer (1, 10) (5)''"] t [of "''b | a''"] t [of "''a (x) [x]''"]
      t [of "''{a=y, b=u}''" ?pcs ?p] t [of "''b | a in {x}''" ?irace ?i]
    by (simp add: c m n r)
qed

text \<open>
  The claim as it stands has every line that is not blank, not a comment and not
  decoded end the read with a failure. The line \<^verbatim>\<open>x integer (1, 10) (5)\<close>, a
  declaration with the wrong brackets, is neither; both dialects skip it and return
  the empty space.
\<close>

theorem silent_skip_counterexample:
  "clean_line ''x integer (1, 10) (5)'' = ''x integer (1, 10) (5)''
   \<and> classify pcs_pp_condition pcs_pp_cont_param pcs_pp_cat_param ''x integer (1, 10) (5)'' = Skipped
   \<and> classify irace_pp_condition irace_pp_cont_param irace_pp_cat_param ''x integer (1, 10) (5)'' = Skipped
   \<and> pcs_read no_numerics [''x integer (1, 10) (5)''] =
       Inr \<lparr>hyperparameters = [], conditions = [], forbidden_clauses = []\<rparr>
   \<and> irace_read no_numerics [''x integer (1, 10) (5)''] =
       Inr \<lparr>hyperparameters = [], conditions = [], forbidden_clauses = []\<rparr>"
  by code_simp

section \<open>The grouping of conditions on read\<close>

lemma first_occurrences_snoc:
  "first_occurrences (xs @ [k]) =
     (if k \<in> set xs then first_occurrences xs else first_occurrences xs @ [k])"
  by (simp add: first_occurrences_def)

lemma first_occurrences_distinct: "distinct (first_occurrences xs)"
  by (simp add: first_occurrences_def)

lemma first_occurrences_set: "set (first_occurrences xs) = set xs"
  by (simp add: first_occurrences_def)

lemma add_to_child_map:
  "distinct ks \<Longrightarrow>
   add_to_child k c (map (\<lambda>k'. (k', F k')) ks) =
     (if k \<in> set ks then map (\<lambda>k'. (k', if k' = k then F k' @ [c] else F k')) ks
      else map (\<lambda>k'. (k', F k')) ks @ [(k, [c])])"
  by (induction ks) auto

lemma conditions_per_child_append:
  "conditions_per_child (xs @ ys) d = bind_err (conditions_per_child xs d) (conditions_per_child ys)"
proof (induction xs arbitrary: d)
  case Nil
  then show ?case by simp
next
  case (Cons x xs)
  then show ?case by (cases "item x 0") simp_all
qed

lemma grouped_snoc:
  "c \<noteq> [] \<Longrightarrow> add_to_child (hd c) c (grouped conds) = grouped (conds @ [c])"
proof -
  assume "c \<noteq> []"
  have "lines_of (hd c) conds = []" if "hd c \<notin> set (map hd conds)"
    using that by (induction conds) (auto simp: lines_of_def)
  then show ?thesis
    unfolding grouped_def
    by (subst add_to_child_map)
       (auto simp: first_occurrences_distinct first_occurrences_snoc first_occurrences_set
          lines_of_def)
qed

lemma conditions_per_child_grouped:
  "conditions_per_child conds [] = Inr groups \<Longrightarrow>
   groups = grouped conds \<and> (\<forall>c\<in>set conds. c \<noteq> [])"
proof (induction conds arbitrary: groups rule: rev_induct)
  case Nil
  then show ?case by (simp add: grouped_def first_occurrences_def)
next
  case (snoc c conds)
  from snoc.prems obtain g where g: "conditions_per_child conds [] = Inr g"
    and c: "conditions_per_child [c] g = Inr groups"
    by (cases "conditions_per_child conds []") (auto simp: conditions_per_child_append)
  from c have ne: "c \<noteq> []" and "groups = add_to_child (hd c) c g"
    by (auto simp: item_def hd_conv_nth split: if_splits)
  with snoc.IH [OF g] show ?case by (simp add: grouped_snoc)
qed

lemma grouped_lines_nonempty: "(k, ls) \<in> set (grouped conds) \<Longrightarrow> ls \<noteq> []"
  by (auto simp: grouped_def lines_of_def first_occurrences_set filter_empty_conv)


lemma map_err_length: "map_err f xs = Inr ys \<Longrightarrow> length ys = length xs"
  by (induction xs arbitrary: ys) (auto split: sum.splits)

lemma get_hyperparameter_cong:
  "hyperparameters cs = hyperparameters cs' \<Longrightarrow> get_hyperparameter cs = get_hyperparameter cs'"
  by (auto simp: get_hyperparameter_def fun_eq_iff)

lemma irace_condition_object_cong:
  "hyperparameters cs = hyperparameters cs' \<Longrightarrow>
   irace_condition_object cs = irace_condition_object cs'"
  by (auto simp: irace_condition_object_def fun_eq_iff dest: get_hyperparameter_cong)

lemma read_forbidden_keeps:
  "read_forbidden fl cs = Inr cs' \<Longrightarrow>
   hyperparameters cs' = hyperparameters cs \<and> conditions cs' = conditions cs"
proof (induction fl arbitrary: cs)
  case Nil
  then show ?case by simp
next
  case (Cons f fl)
  then obtain ts cl where
    "read_forbidden fl (add_forbidden_clause cs (ForbiddenAndConjunction cl)) = Inr cs'"
    by (cases "parseString pp_forbidden_clause f";
        cases "forbidden_triples cs (drop 1 (the (parseString pp_forbidden_clause f))) [] []")
       auto
  from Cons.IH [OF this] show ?case by (simp add: add_forbidden_clause_def)
qed

lemma irace_read_conditions_attach:
  "irace_read_conditions groups cs = Inr cs' \<Longrightarrow>
   hyperparameters cs' = hyperparameters cs \<and>
   (\<exists>new. conditions cs' = conditions cs @ new \<and>
      list_all2 (\<lambda>(child, ls) cond. \<exists>facts.
          map_err (irace_condition_object cs child) ls = Inr facts \<and> facts \<noteq> [] \<and>
          cond = conjoin facts) groups new)"
proof (induction groups arbitrary: cs)
  case Nil
  then show ?case by simp
next
  case (Cons g groups)
  obtain child ls where g: "g = (child, ls)" by (cases g)
  from Cons.prems obtain facts where f: "map_err (irace_condition_object cs child) ls = Inr facts"
    by (cases "map_err (irace_condition_object cs child) ls") (auto simp: g)
  have ne: "facts \<noteq> []" and
    rest: "irace_read_conditions groups (add_condition cs (conjoin facts)) = Inr cs'"
    using Cons.prems f
    by (auto simp: g conjoin_def item_def hd_conv_nth split: if_splits)
  have h: "hyperparameters (add_condition cs (conjoin facts)) = hyperparameters cs"
    by (simp add: add_condition_def)
  from Cons.IH [OF rest] obtain new where
    a: "hyperparameters cs' = hyperparameters (add_condition cs (conjoin facts))"
    and b: "conditions cs' = conditions (add_condition cs (conjoin facts)) @ new"
    and c: "list_all2 (\<lambda>(child, ls) cond. \<exists>facts'.
          map_err (irace_condition_object (add_condition cs (conjoin facts)) child) ls = Inr facts'
          \<and> facts' \<noteq> [] \<and> cond = conjoin facts') groups new"
    by blast
  from c have c': "list_all2 (\<lambda>(child, ls) cond. \<exists>facts'.
          map_err (irace_condition_object cs child) ls = Inr facts'
          \<and> facts' \<noteq> [] \<and> cond = conjoin facts') groups new"
    by (simp only: irace_condition_object_cong [OF h])
  from a b have new: "hyperparameters cs' = hyperparameters cs"
    "conditions cs' = conditions cs @ conjoin facts # new"
    by (simp_all add: add_condition_def)
  show ?case
    using new c' f ne by (auto simp: g intro!: exI [of _ "conjoin facts # new"])
qed

text \<open>
  Claim C4. When \<open>irace_read\<close> returns a space, its top-level conditions are, one for
  one and in order, those of the children named by the condition lines: for each child
  the facts of its lines, one per line and in the order of the lines, joined in one
  AND-conjunction when there are two or more, and the single fact itself, with no
  conjunction around it, when there is one.
\<close>

theorem irace_read_groups_by_child:
  assumes "irace_read N raws = Inr cs"
  shows "list_all2
           (\<lambda>child cond. \<exists>facts.
              map_err (irace_condition_object cs child)
                (lines_of child (parsed_conditions irace_pp_condition raws)) = Inr facts
              \<and> length facts = length (lines_of child (parsed_conditions irace_pp_condition raws))
              \<and> facts \<noteq> []
              \<and> cond = (if length facts > 1 then AndConjunction facts else hd facts))
           (first_occurrences (map hd (parsed_conditions irace_pp_condition raws)))
           (conditions cs)"
proof -
  let ?conds = "parsed_conditions irace_pp_condition raws"
  from assms obtain st cs1 groups where
    rd: "read_lines (irace_read_line N) raws read_start = Inr st"
    and fb: "read_forbidden (forbidden_list st) (configuration_space st) = Inr cs1"
    and gr: "conditions_per_child (condition_list st) [] = Inr groups"
    and rc: "irace_read_conditions groups cs1 = Inr cs"
    using irace_read_phases by blast
  from read_lines_lists [of "irace_read_line N", OF irace_body rd]
  have "condition_list st = ?conds" "conditions (configuration_space st) = []"
    by (simp_all add: read_start_def ConfigurationSpace_def)
  with gr fb have groups: "groups = grouped ?conds" and c1: "conditions cs1 = []"
    using conditions_per_child_grouped read_forbidden_keeps by fastforce+
  from irace_read_conditions_attach [OF rc] c1
  have h: "hyperparameters cs = hyperparameters cs1"
    and l: "list_all2 (\<lambda>(child, ls) cond. \<exists>facts.
          map_err (irace_condition_object cs1 child) ls = Inr facts \<and> facts \<noteq> [] \<and>
          cond = conjoin facts) groups (conditions cs)"
    by auto
  from l show ?thesis
    unfolding groups grouped_def list_all2_map1 irace_condition_object_cong [OF h]
    by (rule list_all2_mono) (auto simp: conjoin_def dest: map_err_length)
qed


text \<open>Two lines for the child \<^verbatim>\<open>x\<close>, with the parents \<^verbatim>\<open>y\<close> and \<^verbatim>\<open>z\<close>, around one
  line for the child \<^verbatim>\<open>w\<close>.\<close>

theorem irace_read_groups_by_child_witness:
  "irace_read no_numerics
     [''x {a, b} [a]'', ''y {1, 2} [1]'', ''z {1, 2} [1]'', ''w {p} [p]'',
      ''x | y in {1}'', ''w | y in {1, 2}'', ''x | z in {2}''] =
   Inr \<lparr>hyperparameters =
          [Categorical ''x'' [''a'', ''b''] ''a'', Categorical ''y'' [''1'', ''2''] ''1'',
           Categorical ''z'' [''1'', ''2''] ''1'', Categorical ''w'' [''p''] ''p''],
        conditions =
          [AndConjunction
             [EqualsCondition (Categorical ''x'' [''a'', ''b''] ''a'')
                (Categorical ''y'' [''1'', ''2''] ''1'') ''1'',
              EqualsCondition (Categorical ''x'' [''a'', ''b''] ''a'')
                (Categorical ''z'' [''1'', ''2''] ''1'') ''2''],
           InCondition (Categorical ''w'' [''p''] ''p'')
             (Categorical ''y'' [''1'', ''2''] ''1'') [''1'', ''2'']],
        forbidden_clauses = []\<rparr>
   \<and> first_occurrences (map hd (parsed_conditions irace_pp_condition
        [''x {a, b} [a]'', ''y {1, 2} [1]'', ''z {1, 2} [1]'', ''w {p} [p]'',
         ''x | y in {1}'', ''w | y in {1, 2}'', ''x | z in {2}''])) = [''x'', ''w'']"
proof -
  let ?raws = "[''x {a, b} [a]'', ''y {1, 2} [1]'', ''z {1, 2} [1]'', ''w {p} [p]'',
      ''x | y in {1}'', ''w | y in {1, 2}'', ''x | z in {2}'']"
  let ?cs = "\<lparr>hyperparameters =
          [Categorical ''x'' [''a'', ''b''] ''a'', Categorical ''y'' [''1'', ''2''] ''1'',
           Categorical ''z'' [''1'', ''2''] ''1'', Categorical ''w'' [''p''] ''p''],
        conditions =
          [AndConjunction
             [EqualsCondition (Categorical ''x'' [''a'', ''b''] ''a'')
                (Categorical ''y'' [''1'', ''2''] ''1'') ''1'',
              EqualsCondition (Categorical ''x'' [''a'', ''b''] ''a'')
                (Categorical ''z'' [''1'', ''2''] ''1'') ''2''],
           InCondition (Categorical ''w'' [''p''] ''p'')
             (Categorical ''y'' [''1'', ''2''] ''1'') [''1'', ''2'']],
        forbidden_clauses = []\<rparr> :: unit configuration_space"
  have r: "irace_read no_numerics ?raws = Inr ?cs"
    by code_simp
  have "length (first_occurrences (map hd (parsed_conditions irace_pp_condition ?raws))) =
        length (conditions ?cs)"
    using irace_read_groups_by_child [OF r] by (rule list_all2_lengthD)
  moreover have "set (first_occurrences (map hd (parsed_conditions irace_pp_condition ?raws))) =
        {''x'', ''w''}"
    by code_simp
  moreover have "first_occurrences (map hd (parsed_conditions irace_pp_condition ?raws)) = [''x'', ''w'']"
    by code_simp
  ultimately show ?thesis using r by simp
qed

section \<open>The grouping of conditions on read in the explicit dialect\<close>

lemma bind_err_Inr: "bind_err m f = Inr y \<longleftrightarrow> (\<exists>x. m = Inr x \<and> f x = Inr y)"
  by (cases m) simp_all

lemma item_Inr: "item xs i = Inr x \<longleftrightarrow> i < length xs \<and> x = xs ! i"
  by (auto simp: item_def)

lemma unbound_Inr: "unbound v = Inr x \<longleftrightarrow> v = Some x"
  by (cases v) (simp_all add: unbound_def)

lemma second_fact_connective:
  "second_fact cs child c i (objs, v) = Inr (objs', v') \<Longrightarrow> connective v' = Some (c ! i)"
  by (auto simp: second_fact_def bind_err_Inr item_Inr unbound_Inr Let_def split: if_splits)

lemma first_fact_tail_connective:
  "first_fact_tail cs child parent c op r (objs, v) = Inr (objs', v') \<Longrightarrow>
   connective v' = (if length c > 4 then Some (c ! 5) else connective v)"
  by (auto simp: first_fact_tail_def bind_err_Inr unbound_Inr split: if_splits
           dest: second_fact_connective)

lemma pcs_condition_line_connective:
  "pcs_condition_line cs child c (objs, v) = Inr (objs', v') \<Longrightarrow>
   connective v' = (if c ! 3 = ''in'' \<and> length c \<le> 7 then connective v else Some (c ! 5))"
  by (auto simp: pcs_condition_line_def bind_err_Inr item_Inr Let_def split: if_splits
           dest!: first_fact_tail_connective)

lemma pcs_condition_lines_connective:
  "pcs_condition_lines cs child ls (objs, v) = Inr (objs', v') \<Longrightarrow>
   connective v' = latest_connective ls (connective v)"
proof (induction ls arbitrary: objs v)
  case Nil
  then show ?case by simp
next
  case (Cons c ls)
  then obtain o1 v1 where 1: "pcs_condition_line cs child c (objs, v) = Inr (o1, v1)"
    and 2: "pcs_condition_lines cs child ls (o1, v1) = Inr (objs', v')"
    by (auto simp: bind_err_Inr)
  from Cons.IH [OF 2] pcs_condition_line_connective [OF 1] show ?case by simp
qed


lemma pcs_condition_lines_cong:
  assumes "hyperparameters cs = hyperparameters cs'"
  shows "pcs_condition_lines cs = pcs_condition_lines cs'"
proof -
  have g: "get_hyperparameter cs = get_hyperparameter cs'"
    using assms by (rule get_hyperparameter_cong)
  have sf: "second_fact cs = second_fact cs'"
    unfolding second_fact_def [abs_def] g by (rule refl)
  have ft: "first_fact_tail cs = first_fact_tail cs'"
    unfolding first_fact_tail_def [abs_def] sf by (rule refl)
  have l: "pcs_condition_line cs = pcs_condition_line cs'"
    unfolding pcs_condition_line_def [abs_def] sf ft g by (rule refl)
  have "pcs_condition_lines cs child ls acc = pcs_condition_lines cs' child ls acc" for child ls acc
    by (induction ls arbitrary: acc) (simp_all add: l bind_err_def split: sum.splits)
  then show ?thesis by (simp add: fun_eq_iff)
qed

lemma pcs_read_conditions_attach:
  "pcs_read_conditions groups (cs, v) = Inr (cs', v') \<Longrightarrow>
   hyperparameters cs' = hyperparameters cs \<and>
   (\<exists>leaves. conditions cs' = conditions cs @ assemble groups (connective v) leaves \<and>
      list_all2 (\<lambda>(child, ls) objs. objs \<noteq> [] \<and>
          (\<exists>v0 v1. pcs_condition_lines cs child ls ([], v0) = Inr (objs, v1))) groups leaves)"
proof (induction groups arbitrary: cs v)
  case Nil
  then show ?case by simp
next
  case (Cons g groups)
  obtain child ls where g: "g = (child, ls)" by (cases g)
  from Cons.prems obtain objs v1 where
    l: "pcs_condition_lines cs child ls ([], v) = Inr (objs, v1)"
    by (auto simp: g bind_err_Inr)
  let ?conn = "latest_connective ls (connective v)"
  let ?cond = "if length objs > 1
               then (if ?conn = Some ''&&'' then AndConjunction objs else OrConjunction objs)
               else hd objs"
  have conn: "connective v1 = ?conn"
    using pcs_condition_lines_connective [OF l] .
  have ne: "objs \<noteq> []" and
    rest: "pcs_read_conditions groups (add_condition cs ?cond, v1) = Inr (cs', v')"
    using Cons.prems l conn
    by (auto simp: g bind_err_Inr unbound_Inr item_Inr hd_conv_nth split: if_splits)
  have h: "hyperparameters (add_condition cs ?cond) = hyperparameters cs"
    by (simp add: add_condition_def)
  from Cons.IH [OF rest] obtain leaves where
    a: "hyperparameters cs' = hyperparameters (add_condition cs ?cond)"
    and b: "conditions cs' = conditions (add_condition cs ?cond) @ assemble groups (connective v1) leaves"
    and c: "list_all2 (\<lambda>(child, ls) objs. objs \<noteq> [] \<and>
          (\<exists>v0 v1. pcs_condition_lines (add_condition cs ?cond) child ls ([], v0) = Inr (objs, v1)))
          groups leaves"
    by blast
  from c have c': "list_all2 (\<lambda>(child, ls) objs. objs \<noteq> [] \<and>
          (\<exists>v0 v1. pcs_condition_lines cs child ls ([], v0) = Inr (objs, v1))) groups leaves"
    by (simp only: pcs_condition_lines_cong [OF h])
  have "conditions cs' = conditions cs @ assemble (g # groups) (connective v) (objs # leaves)"
    using b conn by (simp add: g add_condition_def Let_def)
  moreover have "list_all2 (\<lambda>(child, ls) objs. objs \<noteq> [] \<and>
          (\<exists>v0 v1. pcs_condition_lines cs child ls ([], v0) = Inr (objs, v1)))
          (g # groups) (objs # leaves)"
    using c' l ne by (auto simp: g)
  moreover from a h have "hyperparameters cs' = hyperparameters cs" by simp
  ultimately show ?case by blast
qed

text \<open>
  What the third loop of the explicit dialect does when the read returns a space: every
  child named by a condition line gets one top-level condition, in the order of the
  children, made from the leaves that the run over its lines has collected, joined by
  the connective that was assigned last.
\<close>

lemma pcs_read_conditions_assembled:
  assumes "pcs_read N raws = Inr cs"
  shows "\<exists>leaves.
           conditions cs = assemble (grouped (parsed_conditions pcs_pp_condition raws)) None leaves
           \<and> length (conditions cs) =
               length (first_occurrences (map hd (parsed_conditions pcs_pp_condition raws)))
           \<and> list_all2 (\<lambda>(child, ls) objs. objs \<noteq> [] \<and>
                 (\<exists>v0 v1. pcs_condition_lines cs child ls ([], v0) = Inr (objs, v1)))
               (grouped (parsed_conditions pcs_pp_condition raws)) leaves"
proof -
  let ?conds = "parsed_conditions pcs_pp_condition raws"
  from assms obtain st cs1 groups v where
    rd: "read_lines (pcs_read_line N) raws read_start = Inr st"
    and fb: "read_forbidden (forbidden_list st) (configuration_space st) = Inr cs1"
    and gr: "conditions_per_child (condition_list st) [] = Inr groups"
    and rc: "pcs_read_conditions groups (cs1, no_locals) = Inr (cs, v)"
    using pcs_read_phases by blast
  from read_lines_lists [of "pcs_read_line N", OF pcs_body rd]
  have "condition_list st = ?conds" "conditions (configuration_space st) = []"
    by (simp_all add: read_start_def ConfigurationSpace_def)
  with gr fb have groups: "groups = grouped ?conds" and c1: "conditions cs1 = []"
    using conditions_per_child_grouped read_forbidden_keeps by fastforce+
  from pcs_read_conditions_attach [OF rc] c1 obtain leaves where
    h: "hyperparameters cs = hyperparameters cs1"
    and a: "conditions cs = assemble groups None leaves"
    and l: "list_all2 (\<lambda>(child, ls) objs. objs \<noteq> [] \<and>
          (\<exists>v0 v1. pcs_condition_lines cs1 child ls ([], v0) = Inr (objs, v1))) groups leaves"
    by (auto simp: no_locals_def)
  have len: "length (assemble gs conn lv) = length gs" if "length gs = length lv"
    for gs conn and lv :: "'a condition list list"
    using that by (induction gs conn lv rule: assemble.induct) (simp_all add: Let_def)
  from l have "length groups = length leaves" by (rule list_all2_lengthD)
  then have "length (conditions cs) = length (first_occurrences (map hd ?conds))"
    using len [of groups leaves None] a by (simp add: groups grouped_def)
  with a l show ?thesis
    unfolding groups pcs_condition_lines_cong [OF h] by blast
qed


text \<open>
  Claim C5. The claim has the read join all the leaves of all the lines of a child,
  by the connective of the last line of its group: AND when that is \<^verbatim>\<open>&&\<close>, OR
  otherwise. The connective and the two leaves of a line are variables of the function
  that no line and no child resets. The two lines of the child \<^verbatim>\<open>x\<close> in the first
  input are membership lines and carry no connective; the read joins their leaves by
  AND, with the \<^verbatim>\<open>&&\<close> of the line of the child \<^verbatim>\<open>y\<close>. The second line of the
  child \<^verbatim>\<open>x\<close> in the second input has the operation \<^verbatim>\<open><\<close>, for which no leaf is
  made: the leaf of the line before it is added once more in its place.
\<close>

theorem pcs_read_stale_connective:
  "pcs_read no_numerics
     [''a categorical {1} [1]'', ''b categorical {2} [2]'', ''c categorical {3} [3]'',
      ''d categorical {4} [4]'', ''x categorical {u} [u]'', ''y categorical {u} [u]'',
      ''y | a == 1 && b == 2'', ''x | c in {3}'', ''x | d in {4}''] =
   Inr \<lparr>hyperparameters =
          [Categorical ''a'' [''1''] ''1'', Categorical ''b'' [''2''] ''2'',
           Categorical ''c'' [''3''] ''3'', Categorical ''d'' [''4''] ''4'',
           Categorical ''x'' [''u''] ''u'', Categorical ''y'' [''u''] ''u''],
        conditions =
          [AndConjunction
             [EqualsCondition (Categorical ''y'' [''u''] ''u'') (Categorical ''a'' [''1''] ''1'') ''1'',
              EqualsCondition (Categorical ''y'' [''u''] ''u'') (Categorical ''b'' [''2''] ''2'') ''2''],
           AndConjunction
             [InCondition (Categorical ''x'' [''u''] ''u'') (Categorical ''c'' [''3''] ''3'') [''3''],
              InCondition (Categorical ''x'' [''u''] ''u'') (Categorical ''d'' [''4''] ''4'') [''4'']]],
        forbidden_clauses = []\<rparr>
   \<and> parseString pcs_pp_condition (clean_line ''x | c in {3}'') =
       Some [''x'', ''|'', ''c'', ''in'', ''{'', ''3'', ''}'']
   \<and> parseString pcs_pp_condition (clean_line ''x | d in {4}'') =
       Some [''x'', ''|'', ''d'', ''in'', ''{'', ''4'', ''}'']
   \<and> pcs_read no_numerics
        [''a categorical {1} [1]'', ''b categorical {2} [2]'', ''c categorical {3} [3]'',
         ''d categorical {4} [4]'', ''x categorical {u} [u]'',
         ''x | a == 1 && b == 2'', ''x | c < 3 && d == 4''] =
      Inr \<lparr>hyperparameters =
             [Categorical ''a'' [''1''] ''1'', Categorical ''b'' [''2''] ''2'',
              Categorical ''c'' [''3''] ''3'', Categorical ''d'' [''4''] ''4'',
              Categorical ''x'' [''u''] ''u''],
           conditions =
             [AndConjunction
                [EqualsCondition (Categorical ''x'' [''u''] ''u'') (Categorical ''a'' [''1''] ''1'') ''1'',
                 EqualsCondition (Categorical ''x'' [''u''] ''u'') (Categorical ''b'' [''2''] ''2'') ''2'',
                 EqualsCondition (Categorical ''x'' [''u''] ''u'') (Categorical ''a'' [''1''] ''1'') ''1'',
                 EqualsCondition (Categorical ''x'' [''u''] ''u'') (Categorical ''d'' [''4''] ''4'') ''4'']],
           forbidden_clauses = []\<rparr>"
  by code_simp

section \<open>The connective that was never assigned\<close>

lemma declared_pairE:
  assumes "declared_pair cs c"
  obtains child parent where "get_hyperparameter cs (c ! 0) = Inr child"
    "get_hyperparameter cs (c ! 2) = Inr parent" "name child \<noteq> name parent"
  using assms by (auto simp: declared_pair_def split: sum.splits)

lemma membership_line_step:
  assumes "membership_line cs c" "hd c = child"
  shows "\<exists>c1. pcs_condition_line cs child c (objs, v) = Inr (objs @ [c1], v\<lparr>condition1 := Some c1\<rparr>)"
proof -
  from assms(1) have len: "4 \<le> length c" "length c \<le> 7" and op: "c ! 3 = ''in''"
    and d: "declared_pair cs c"
    by (simp_all add: membership_line_def)
  from len assms(2) have h: "c ! 0 = child" by (cases c) auto
  from d obtain ch pa where "get_hyperparameter cs (c ! 0) = Inr ch"
    "get_hyperparameter cs (c ! 2) = Inr pa" "name ch \<noteq> name pa"
    by (rule declared_pairE)
  with len op h show ?thesis
    by (simp add: pcs_condition_line_def item_def new_condition_def Let_def)
qed

text \<open>The grammar of a condition line gives five to seven tokens when the line has no
  connective, and nine to eleven when it has one.\<close>

lemma And_ConsE:
  assumes "And (p # ps) s = Some (c, r)"
  obtains ts r' us where "p s = Some (ts, r')" "And ps r' = Some (us, r)" "c = ts @ us"
  using assms by (auto split: option.splits)

lemma Word_one: "Word b cs s = Some (ts, r) \<Longrightarrow> length ts = 1"
  by (auto simp: Word_def Let_def split: if_splits)

lemma Literal_one: "Literal b l s = Some (ts, r) \<Longrightarrow> length ts = 1"
  by (auto simp: Literal_def Let_def split: if_splits)

lemma Optional_cases: "Optional p s = Some (ts, r) \<Longrightarrow> ts = [] \<or> p s = Some (ts, r)"
  by (auto simp: Optional_def split: option.splits)

lemma condition_tokens:
  assumes "pcs_pp_condition s = Some (c, r)"
  shows "length c \<in> {5, 6, 7, 9, 10, 11}"
  using assms
  unfolding pcs_pp_condition_def pp_param_name_def pp_param_operation_def pp_param_val_def
    pp_connective_def
  by (elim And_ConsE) (auto dest!: Word_one Literal_one Optional_cases elim!: And_ConsE)

lemma condition_tokens_nonempty: "pcs_pp_condition s = Some (c, r) \<Longrightarrow> c \<noteq> []"
  using condition_tokens [of s c r] by auto

text \<open>A line of at most seven tokens assigns no connective and gives one leaf, or ends
  the read: when its operation is not \<^verbatim>\<open>in\<close>, the second fact is read from the tokens
  at 5 to 8, and the token at 7 or one before it is missing.\<close>

lemma short_line_step:
  assumes "length c \<le> 7"
  shows "(\<exists>e. pcs_condition_line cs child c (objs, v) = Inl e)
         \<or> (\<exists>c1 v'. pcs_condition_line cs child c (objs, v) = Inr (objs @ [c1], v')
               \<and> connective v' = connective v)"
proof (cases "3 < length c \<and> c ! 3 = ''in''")
  case True
  then have "pcs_condition_line cs child c (objs, v) =
     bind_err (get_hyperparameter cs child) (\<lambda>ch.
     bind_err (get_hyperparameter cs (c ! 2)) (\<lambda>pa.
     bind_err (new_condition InCondition ch pa (slice2 c 5 1)) (\<lambda>c1.
       Inr (objs @ [c1], v\<lparr>condition1 := Some c1\<rparr>))))"
    using assms by (simp add: pcs_condition_line_def item_def Let_def)
  then show ?thesis
    by (auto simp: bind_err_def split: sum.splits)
next
  case False
  have sf: "\<exists>e. second_fact cs ch c 5 a = Inl e" for ch a
    using assms
    by (cases a) (auto simp: second_fact_def item_def bind_err_def Let_def split: sum.splits)
  have fft: "\<exists>e. first_fact_tail cs ch pa c op' re a = Inl e" if "4 < length c" for ch pa op' re a
  proof (cases a)
    case (Pair objs' v0)
    show ?thesis
      unfolding Pair first_fact_tail_def
      using that sf by (simp add: bind_err_def split: sum.splits)
  qed
  have tail: "\<exists>e. bind_err (item c 4) (\<lambda>re. first_fact_tail cs ch pa c op' re a) = Inl e"
    for ch pa op' a
  proof (cases "4 < length c")
    case True
    with fft [OF True, of ch pa op' "c ! 4" a] show ?thesis by (simp add: item_def)
  next
    case False
    then show ?thesis by (simp add: item_def)
  qed
  have "\<exists>e. pcs_condition_line cs child c (objs, v) = Inl e"
  proof (cases "get_hyperparameter cs child")
    case (Inl e)
    then show ?thesis by (simp add: pcs_condition_line_def)
  next
    case ch: (Inr ch)
    show ?thesis
    proof (cases "2 < length c")
      case False
      with ch show ?thesis by (simp add: pcs_condition_line_def item_def)
    next
      case two: True
      show ?thesis
      proof (cases "get_hyperparameter cs (c ! 2)")
        case (Inl e)
        with ch two show ?thesis by (simp add: pcs_condition_line_def item_def)
      next
        case pa: (Inr pa)
        show ?thesis
        proof (cases "3 < length c")
          case False
          with ch two pa show ?thesis by (simp add: pcs_condition_line_def item_def)
        next
          case True
          with \<open>\<not> (3 < length c \<and> c ! 3 = ''in'')\<close> have "c ! 3 \<noteq> ''in''" by simp
          with ch two pa True tail [of ch pa "c ! 3" "(objs, v)"] show ?thesis
            by (simp add: pcs_condition_line_def item_def)
        qed
      qed
    qed
  qed
  then show ?thesis by blast
qed

lemma short_lines:
  assumes "\<forall>c\<in>set ls. length c \<le> 7"
  shows "(\<exists>e. pcs_condition_lines cs child ls (objs, v) = Inl e)
         \<or> (\<exists>objs' v'. pcs_condition_lines cs child ls (objs, v) = Inr (objs', v')
               \<and> length objs' = length objs + length ls \<and> connective v' = connective v)"
  using assms
proof (induction ls arbitrary: objs v)
  case Nil
  then show ?case by simp
next
  case (Cons c ls)
  then have "length c \<le> 7" by simp
  from short_line_step [OF this, of cs child objs v] show ?case
  proof
    assume "\<exists>e. pcs_condition_line cs child c (objs, v) = Inl e"
    then show ?thesis by auto
  next
    assume "\<exists>c1 v'. pcs_condition_line cs child c (objs, v) = Inr (objs @ [c1], v')
               \<and> connective v' = connective v"
    then obtain c1 v' where s: "pcs_condition_line cs child c (objs, v) = Inr (objs @ [c1], v')"
      and k: "connective v' = connective v"
      by blast
    from Cons.IH [of "objs @ [c1]" v'] Cons.prems s k show ?thesis by auto
  qed
qed

lemma membership_lines:
  assumes "\<forall>c\<in>set ls. hd c = child \<and> membership_line cs c"
  shows "\<exists>objs' v'. pcs_condition_lines cs child ls (objs, v) = Inr (objs', v')
           \<and> length objs' = length objs + length ls \<and> connective v' = connective v"
  using assms
proof (induction ls arbitrary: objs v)
  case Nil
  then show ?case by simp
next
  case (Cons c ls)
  then obtain c1 where
    s: "pcs_condition_line cs child c (objs, v) = Inr (objs @ [c1], v\<lparr>condition1 := Some c1\<rparr>)"
    using membership_line_step [of cs c child objs v] by auto
  from Cons.IH [of "objs @ [c1]" "v\<lparr>condition1 := Some c1\<rparr>"] Cons.prems s
  show ?case by auto
qed

lemma membership_line_cong:
  assumes "hyperparameters cs = hyperparameters cs'"
  shows "membership_line cs = membership_line cs'"
proof -
  have "declared_pair cs = declared_pair cs'"
    unfolding declared_pair_def [abs_def] get_hyperparameter_cong [OF assms] by (rule refl)
  then show ?thesis
    by (simp add: membership_line_def [abs_def])
qed

lemma read_conditions_no_connective:
  assumes "\<forall>c\<in>set (concat (map snd pre) @ ls). length c \<le> 7"
    and "2 \<le> length ls" and "connective v = None"
  shows "\<exists>e. pcs_read_conditions (pre @ (child, ls) # post) (cs, v) = Inl e"
  using assms(1,3)
proof (induction pre arbitrary: cs v)
  case Nil
  then have "\<forall>c\<in>set ls. length c \<le> 7" by simp
  from short_lines [OF this, of cs child "[]" v] show ?case
  proof
    assume "\<exists>e. pcs_condition_lines cs child ls ([], v) = Inl e"
    then show ?thesis by auto
  next
    assume "\<exists>objs' v'. pcs_condition_lines cs child ls ([], v) = Inr (objs', v')
              \<and> length objs' = length [] + length ls \<and> connective v' = connective v"
    with assms(2) Nil.prems(2) show ?thesis by (auto simp: unbound_def)
  qed
next
  case (Cons g pre)
  obtain k l where g: "g = (k, l)" by (cases g)
  from Cons.prems(1) have short: "\<forall>c\<in>set l. length c \<le> 7"
    and rest: "\<forall>c\<in>set (concat (map snd pre) @ ls). length c \<le> 7"
    by (auto simp: g)
  from short_lines [OF short, of cs k "[]" v] show ?case
  proof
    assume "\<exists>e. pcs_condition_lines cs k l ([], v) = Inl e"
    then show ?thesis by (auto simp: g)
  next
    assume "\<exists>objs' v'. pcs_condition_lines cs k l ([], v) = Inr (objs', v')
              \<and> length objs' = length [] + length l \<and> connective v' = connective v"
    then obtain objs' v' where s: "pcs_condition_lines cs k l ([], v) = Inr (objs', v')"
      and n: "connective v' = None"
      using Cons.prems(2) by auto
    show ?thesis
    proof (cases "1 < length objs'")
      case True
      with s n show ?thesis by (simp add: g unbound_def)
    next
      case False
      show ?thesis
      proof (cases objs')
        case Nil
        with s show ?thesis by (simp add: g item_def)
      next
        case (Cons c1 more)
        with False s have "pcs_read_conditions ((g # pre) @ (child, ls) # post) (cs, v)
                           = pcs_read_conditions (pre @ (child, ls) # post) (add_condition cs c1, v')"
          by (simp add: g item_def)
        with Cons.IH [OF rest n, of "add_condition cs c1"] show ?thesis by simp
      qed
    qed
  qed
qed

lemma read_conditions_membership:
  assumes "\<forall>(k, l)\<in>set (pre @ [(child, ls)]). l \<noteq> [] \<and> (\<forall>c\<in>set l. hd c = k \<and> membership_line cs c)"
    and "2 \<le> length ls" and "connective v = None"
  shows "pcs_read_conditions (pre @ (child, ls) # post) (cs, v) = Inl UnboundLocalError"
  using assms(1,3)
proof (induction pre arbitrary: cs v)
  case Nil
  then have "\<forall>c\<in>set ls. hd c = child \<and> membership_line cs c" by simp
  from membership_lines [OF this, of "[]" v] assms(2) Nil.prems(2) show ?case
    by (auto simp: unbound_def)
next
  case (Cons g pre)
  obtain k l where g: "g = (k, l)" by (cases g)
  from Cons.prems(1) have ne: "l \<noteq> []" and m: "\<forall>c\<in>set l. hd c = k \<and> membership_line cs c"
    and rest: "\<forall>(k, l)\<in>set (pre @ [(child, ls)]).
                 l \<noteq> [] \<and> (\<forall>c\<in>set l. hd c = k \<and> membership_line cs c)"
    by (auto simp: g)
  from membership_lines [OF m, of "[]" v] obtain objs' v' where
    s: "pcs_condition_lines cs k l ([], v) = Inr (objs', v')"
    and len: "length objs' = length l" and n: "connective v' = None"
    using Cons.prems(2) by auto
  show ?case
  proof (cases "1 < length objs'")
    case True
    with s n show ?thesis by (simp add: g unbound_def)
  next
    case False
    with len ne obtain c1 where objs': "objs' = [c1]"
      by (cases objs'; cases l) auto
    let ?cs = "add_condition cs c1"
    have h: "hyperparameters cs = hyperparameters ?cs" by (simp add: add_condition_def)
    from s objs' have step: "pcs_read_conditions ((g # pre) @ (child, ls) # post) (cs, v)
                             = pcs_read_conditions (pre @ (child, ls) # post) (?cs, v')"
      by (simp add: g item_def)
    from rest have "\<forall>(k, l)\<in>set (pre @ [(child, ls)]).
                      l \<noteq> [] \<and> (\<forall>c\<in>set l. hd c = k \<and> membership_line ?cs c)"
      unfolding membership_line_cong [OF h] .
    from Cons.IH [OF this n] step show ?thesis by simp
  qed
qed

lemma conditions_per_child_total:
  "\<forall>c\<in>set conds. c \<noteq> [] \<Longrightarrow> \<exists>groups. conditions_per_child conds d = Inr groups"
  by (induction conds arbitrary: d) (auto simp: item_def)

lemma grouped_lines_head: "(k, ls) \<in> set (grouped conds) \<Longrightarrow> c \<in> set ls \<Longrightarrow> hd c = k"
  by (auto simp: grouped_def lines_of_def)

text \<open>
  Claim C10, as amended. The lines of a condition without a connective are those of at
  most seven tokens. Let some child have two or more condition lines, and let no line of
  this child or of a child before it carry a connective. Then \<open>pcs_read\<close> returns no
  space. It ends with \<open>UnboundLocalError\<close>, from the read of the connective that no
  line assigned, when the declarations and the forbidden lines are read and each of
  these condition lines is a membership line on a declared child and a declared parent
  that differ. The lines of the children after it do not matter.
\<close>

theorem pcs_read_unassigned_connective:
  assumes "grouped (parsed_conditions pcs_pp_condition raws) = pre @ (child, ls) # post"
    and "2 \<le> length ls"
    and "\<forall>c\<in>set (concat (map snd pre) @ ls). length c \<le> 7"
  shows "(\<forall>cs. pcs_read N raws \<noteq> Inr cs)
         \<and> (\<forall>st cs. read_lines (pcs_read_line N) raws read_start = Inr st
                  \<and> read_forbidden (forbidden_list st) (configuration_space st) = Inr cs
                  \<and> list_all (membership_line cs) (concat (map snd pre) @ ls)
                \<longrightarrow> pcs_read N raws = Inl UnboundLocalError)"
proof (intro conjI allI impI notI)
  fix cs assume "pcs_read N raws = Inr cs"
  then obtain st cs1 groups v where
    rd: "read_lines (pcs_read_line N) raws read_start = Inr st"
    and gr: "conditions_per_child (condition_list st) [] = Inr groups"
    and rc: "pcs_read_conditions groups (cs1, no_locals) = Inr (cs, v)"
    using pcs_read_phases by blast
  from read_lines_lists [of "pcs_read_line N", OF pcs_body rd]
  have "condition_list st = parsed_conditions pcs_pp_condition raws"
    by (simp add: read_start_def)
  with gr have "groups = pre @ (child, ls) # post"
    using conditions_per_child_grouped assms(1) by fastforce
  with read_conditions_no_connective [OF assms(3,2), of no_locals child post cs1] rc
  show False by (simp add: no_locals_def)
next
  fix st cs
  assume a: "read_lines (pcs_read_line N) raws read_start = Inr st
             \<and> read_forbidden (forbidden_list st) (configuration_space st) = Inr cs
             \<and> list_all (membership_line cs) (concat (map snd pre) @ ls)"
  let ?conds = "parsed_conditions pcs_pp_condition raws"
  from a read_lines_lists [of "pcs_read_line N" _ _ _ _ _ raws read_start st, OF pcs_body]
  have cl: "condition_list st = ?conds"
    by (simp add: read_start_def)
  from a have m: "\<forall>c\<in>set (concat (map snd pre) @ ls). membership_line cs c"
    by (simp add: list_all_iff)
  have "\<forall>c\<in>set ?conds. c \<noteq> []"
    using condition_tokens_nonempty
    by (auto simp: parsed_conditions_def map_filter_def parseString_def split: if_splits)
  then obtain groups where gr: "conditions_per_child ?conds [] = Inr groups"
    using conditions_per_child_total by blast
  then have groups: "groups = pre @ (child, ls) # post"
    using conditions_per_child_grouped assms(1) by fastforce
  have wf: "\<forall>(k, l)\<in>set (pre @ [(child, ls)]).
              l \<noteq> [] \<and> (\<forall>c\<in>set l. hd c = k \<and> membership_line cs c)"
  proof -
    have "l \<noteq> [] \<and> (\<forall>c\<in>set l. hd c = k \<and> membership_line cs c)"
      if kl: "(k, l) \<in> set (pre @ [(child, ls)])" for k l
    proof -
      from kl have g: "(k, l) \<in> set (grouped ?conds)"
        unfolding assms(1) by auto
      have "hd c = k \<and> membership_line cs c" if c: "c \<in> set l" for c
      proof -
        from kl c have "c \<in> set (concat (map snd pre) @ ls)" by force
        with m grouped_lines_head [OF g c] show ?thesis by simp
      qed
      with grouped_lines_nonempty [OF g] show ?thesis by blast
    qed
    then show ?thesis by blast
  qed
  have "pcs_read N raws = bind_err (pcs_read_conditions groups (cs, no_locals)) (\<lambda>(cs, v). Inr cs)"
    using a by (simp add: pcs_read_def cl gr)
  with read_conditions_membership [OF wf assms(2), of no_locals post]
  show "pcs_read N raws = Inl UnboundLocalError"
    by (simp add: groups no_locals_def)
qed

text \<open>
  The child \<^verbatim>\<open>w\<close> has one membership line and the child \<^verbatim>\<open>x\<close> after it has two;
  the line of the child \<^verbatim>\<open>y\<close>, the last, carries \<^verbatim>\<open>&&\<close>, which is not read.
\<close>

theorem pcs_read_unassigned_connective_witness:
  "grouped (parsed_conditions pcs_pp_condition
      [''a categorical {1} [1]'', ''b categorical {2} [2]'', ''c categorical {3} [3]'',
       ''d categorical {4} [4]'', ''w categorical {u} [u]'', ''x categorical {u} [u]'',
       ''y categorical {u} [u]'',
       ''w | c in {3}'', ''x | c in {3}'', ''x | d in {4}'', ''y | a == 1 && b == 2''])
   = [(''w'', [[''w'', ''|'', ''c'', ''in'', ''{'', ''3'', ''}'']])]
     @ (''x'', [[''x'', ''|'', ''c'', ''in'', ''{'', ''3'', ''}''],
               [''x'', ''|'', ''d'', ''in'', ''{'', ''4'', ''}'']])
     # [(''y'', [[''y'', ''|'', ''a'', ''=='', ''1'', ''&&'', ''b'', ''=='', ''2'']])]
   \<and> pcs_read no_numerics
        [''a categorical {1} [1]'', ''b categorical {2} [2]'', ''c categorical {3} [3]'',
         ''d categorical {4} [4]'', ''w categorical {u} [u]'', ''x categorical {u} [u]'',
         ''y categorical {u} [u]'',
         ''w | c in {3}'', ''x | c in {3}'', ''x | d in {4}'', ''y | a == 1 && b == 2'']
      = Inl UnboundLocalError"
proof -
  let ?raws = "[''a categorical {1} [1]'', ''b categorical {2} [2]'', ''c categorical {3} [3]'',
       ''d categorical {4} [4]'', ''w categorical {u} [u]'', ''x categorical {u} [u]'',
       ''y categorical {u} [u]'',
       ''w | c in {3}'', ''x | c in {3}'', ''x | d in {4}'', ''y | a == 1 && b == 2'']"
  let ?pre = "[(''w'', [[''w'', ''|'', ''c'', ''in'', ''{'', ''3'', ''}'']])]"
  let ?ls = "[[''x'', ''|'', ''c'', ''in'', ''{'', ''3'', ''}''],
              [''x'', ''|'', ''d'', ''in'', ''{'', ''4'', ''}'']]"
  let ?post = "[(''y'', [[''y'', ''|'', ''a'', ''=='', ''1'', ''&&'', ''b'', ''=='', ''2'']])]"
  let ?cs = "\<lparr>hyperparameters =
               [Categorical ''a'' [''1''] ''1'', Categorical ''b'' [''2''] ''2'',
                Categorical ''c'' [''3''] ''3'', Categorical ''d'' [''4''] ''4'',
                Categorical ''w'' [''u''] ''u'', Categorical ''x'' [''u''] ''u'',
                Categorical ''y'' [''u''] ''u''],
             conditions = [], forbidden_clauses = []\<rparr> :: unit configuration_space"
  let ?st = "\<lparr>configuration_space = ?cs,
              condition_list = [[''w'', ''|'', ''c'', ''in'', ''{'', ''3'', ''}''],
                                [''x'', ''|'', ''c'', ''in'', ''{'', ''3'', ''}''],
                                [''x'', ''|'', ''d'', ''in'', ''{'', ''4'', ''}''],
                                [''y'', ''|'', ''a'', ''=='', ''1'', ''&&'', ''b'', ''=='', ''2'']],
              forbidden_list = []\<rparr>"
  have g: "grouped (parsed_conditions pcs_pp_condition ?raws) = ?pre @ (''x'', ?ls) # ?post"
    by code_simp
  have two: "2 \<le> length ?ls" by simp
  have short: "\<forall>c\<in>set (concat (map snd ?pre) @ ?ls). length c \<le> 7" by simp
  have rd: "read_lines (pcs_read_line no_numerics) ?raws read_start = Inr ?st"
    by code_simp
  have fb: "read_forbidden (forbidden_list ?st) (configuration_space ?st) = Inr ?cs"
    by simp
  have m: "list_all (membership_line ?cs) (concat (map snd ?pre) @ ?ls)"
    by code_simp
  from pcs_read_unassigned_connective [OF g two short, of no_numerics] rd fb m
  have "pcs_read no_numerics ?raws = Inl UnboundLocalError"
    by blast
  with g show ?thesis by (intro conjI)
qed

text \<open>
  The claim as it stands has the read end with the error of the unassigned connective
  whenever a child has two lines and no line carries a connective. With the two
  membership lines of the child \<^verbatim>\<open>x\<close> below, the second on a parent that no line
  declares, the read ends with the typed \<open>UnknownNameError\<close>. And an equality line
  without a connective never gets to the grouping: one such line ends the read with
  \<open>IndexError\<close>, at the token where its connective would be.
\<close>

theorem typed_error_before_grouping_counterexample:
  "parsed_conditions pcs_pp_condition
     [''c categorical {3} [3]'', ''x categorical {u} [u]'', ''x | c in {3}'', ''x | e in {4}'']
   = [[''x'', ''|'', ''c'', ''in'', ''{'', ''3'', ''}''],
      [''x'', ''|'', ''e'', ''in'', ''{'', ''4'', ''}'']]
   \<and> pcs_read no_numerics
        [''c categorical {3} [3]'', ''x categorical {u} [u]'', ''x | c in {3}'', ''x | e in {4}'']
      = Inl UnknownNameError
   \<and> pcs_read no_numerics
        [''c categorical {3} [3]'', ''x categorical {u} [u]'', ''x | c == 3'']
      = Inl IndexError"
  by code_simp

section \<open>Round trip in the explicit dialect\<close>

lemma name_chars_not_white: "c \<in> set name_chars \<Longrightarrow> c \<notin> set pp_white"
  by (auto simp: name_chars_def alphanums_def alphas_def pp_digits_def pp_white_def)

lemma takeWhile_stop:
  "r = [] \<or> \<not> P (hd r) \<Longrightarrow> takeWhile P r = [] \<and> dropWhile P r = r"
  by (cases r) auto

lemma takeWhile_token:
  "list_all P w \<Longrightarrow> (r = [] \<or> \<not> P (hd r)) \<Longrightarrow> takeWhile P (w @ r) = w \<and> dropWhile P (w @ r) = r"
  using takeWhile_stop [of r P] by (induction w) auto

lemma skip_ws_blank: "skip_ws True (CHR '' '' # s) = skip_ws True s"
  by (simp add: skip_ws_def pp_white_def)

lemma skip_ws_none: "s = [] \<or> hd s \<notin> set pp_white \<Longrightarrow> skip_ws b s = s"
  by (cases s) (auto simp: skip_ws_def)

lemma word_token:
  assumes "w \<noteq> []" "list_all (\<lambda>c. c \<in> set cs) w" "r = [] \<or> hd r \<notin> set cs" "hd w \<notin> set pp_white"
  shows "Word b cs (w @ r) = Some ([w], r)"
proof -
  from assms(1,4) have "skip_ws b (w @ r) = w @ r" by (intro skip_ws_none) auto
  with takeWhile_token [of "\<lambda>c. c \<in> set cs" w r] assms show ?thesis
    by (simp add: Word_def Let_def)
qed

lemma word_blank: "Word True cs (CHR '' '' # s) = Word True cs s"
  by (simp add: Word_def skip_ws_blank)

lemma literal_blank: "Literal True l (CHR '' '' # s) = Literal True l s"
  by (simp add: Literal_def skip_ws_blank)

lemma param_name_token:
  "name_token w \<Longrightarrow> r = [] \<or> hd r \<notin> set name_chars \<Longrightarrow> pp_param_name (w @ r) = Some ([w], r)"
  unfolding pp_param_name_def name_token_def
  by (rule word_token) (auto intro!: name_chars_not_white simp: list_all_iff)

lemma literal_here: "hd l \<notin> set pp_white \<Longrightarrow> l \<noteq> [] \<Longrightarrow> Literal b l (l @ r) = Some ([l], r)"
  by (simp add: Literal_def Let_def skip_ws_none)

lemma not_name_chars:
  "CHR '' '' \<notin> set name_chars" "CHR '','' \<notin> set name_chars" "CHR ''{'' \<notin> set name_chars"
  "CHR ''}'' \<notin> set name_chars" "CHR ''['' \<notin> set name_chars" "CHR '']'' \<notin> set name_chars"
  "CHR ''='' \<notin> set name_chars" "CHR ''|'' \<notin> set name_chars" "CHR ''#'' \<notin> set name_chars"
  "CHR 0x22 \<notin> set name_chars" "CHR 0x27 \<notin> set name_chars" "CHR 0x0A \<notin> set name_chars"
  by (simp_all add: name_chars_def alphanums_def alphas_def pp_digits_def)

lemma choices_tail:
  assumes "list_all name_token cs"
    "r = [] \<or> (hd r \<notin> set name_chars \<and> hd r \<noteq> CHR '','' \<and> hd r \<notin> set pp_white)"
  shows "repeat_expr (And [Literal True '','', pp_param_name]) (more_choices cs @ r) =
         (more_choice_tokens cs, r)"
  using assms(1)
proof (induction cs)
  case Nil
  have "Literal True '','' r = None"
    using assms(2) by (cases r) (auto simp: Literal_def Let_def skip_ws_def)
  then show ?case by (subst repeat_expr.simps) simp
next
  case (Cons c cs)
  let ?rest = "more_choices cs @ r"
  have hd: "?rest = [] \<or> hd ?rest \<notin> set name_chars"
    using assms(2) by (cases cs) (auto simp: not_name_chars)
  from Cons.prems have c: "name_token c" by simp
  have step: "And [Literal True '','', pp_param_name] (more_choices (c # cs) @ r) =
              Some (['','', c], ?rest)"
    using param_name_token [OF c hd]
    by (simp add: Literal_def Let_def skip_ws_def pp_white_def pp_param_name_def word_blank)
  have "length ?rest < length (more_choices (c # cs) @ r)" by simp
  with step Cons show ?case
    by (subst repeat_expr.simps) (simp del: more_choices.simps And.simps)
qed

lemma join_more_choices: "join '', '' (c # cs) = c @ more_choices cs"
  by (induction cs arbitrary: c) simp_all

lemma more_choices_hd: "more_choices cs @ CHR ''}'' # r = [] \<or> hd (more_choices cs @ CHR ''}'' # r) \<notin> set name_chars"
  by (cases cs) (simp_all add: not_name_chars)

lemma param_name_before:
  "name_token w \<Longrightarrow> c \<notin> set name_chars \<Longrightarrow> pp_param_name (w @ c # r) = Some ([w], c # r)"
  by (rule param_name_token) simp_all

lemma param_name_blank: "pp_param_name (CHR '' '' # s) = pp_param_name s"
  by (simp add: pp_param_name_def word_blank)

lemma choices_token:
  assumes "name_token c" "list_all name_token cs"
  shows "pp_choices (c @ more_choices cs @ CHR ''}'' # r) =
         Some (c # more_choice_tokens cs, CHR ''}'' # r)"
proof -
  let ?rest = "more_choices cs @ CHR ''}'' # r"
  have 1: "pp_param_name (c @ ?rest) = Some ([c], ?rest)"
    using assms(1) more_choices_hd by (rule param_name_token)
  have t: "repeat_expr (And [Literal True '','', pp_param_name]) (more_choices cs @ CHR ''}'' # r) =
           (more_choice_tokens cs, CHR ''}'' # r)"
    using assms(2) by (rule choices_tail) (simp add: not_name_chars pp_white_def)
  have 2: "Optional (OneOrMore (And [Literal True '','', pp_param_name])) ?rest =
           Some (more_choice_tokens cs, CHR ''}'' # r)"
  proof (cases cs)
    case Nil
    then show ?thesis
      by (simp add: Optional_def OneOrMore_def Literal_def Let_def skip_ws_def pp_white_def)
  next
    case (Cons c' cs')
    let ?rest' = "more_choices cs' @ CHR ''}'' # r"
    from assms(2) Cons have c': "name_token c'" "list_all name_token cs'" by simp_all
    have step: "And [Literal True '','', pp_param_name] ?rest = Some (['','', c'], ?rest')"
      using param_name_token [OF c'(1) more_choices_hd, of cs' r]
      by (simp add: Cons Literal_def Let_def skip_ws_def pp_white_def param_name_blank)
    have "repeat_expr (And [Literal True '','', pp_param_name]) ?rest' =
           (more_choice_tokens cs', CHR ''}'' # r)"
      using c'(2) by (rule choices_tail) (simp add: not_name_chars pp_white_def)
    with step show ?thesis
      by (simp add: Optional_def OneOrMore_def Cons del: And.simps more_choices.simps)
  qed
  from 1 2 show ?thesis
    by (simp add: pp_choices_def del: And.simps(2)) (simp add: And.simps(2) [of pp_param_name])
qed

lemma And_Cons_Some:
  "p s = Some (ts, r) \<Longrightarrow> And ps r = Some (us, r') \<Longrightarrow> And (p # ps) s = Some (ts @ us, r')"
  by simp

lemma And_Nil_Some: "And [] s = Some ([], s)"
  by simp

lemma categorical_line_tokens:
  assumes "name_token n" "name_token c" "list_all name_token cs" "name_token d"
  shows "pcs_pp_cat_param (pcs_build_categorical n (c # cs) d) =
         Some ([n, ''categorical'', ''{'', c] @ more_choice_tokens cs @ [''}'', ''['', d, '']''], [])"
proof -
  let ?s6 = "'']''"
  let ?s5 = "d @ ?s6"
  let ?s4 = "'' ['' @ ?s5"
  let ?s3 = "CHR ''}'' # ?s4"
  let ?s2 = "c @ more_choices cs @ ?s3"
  let ?s1b = "'' {'' @ ?s2"
  let ?s1 = "'' categorical'' @ ?s1b"
  let ?s0 = "n @ ?s1"
  have 0: "pp_param_name ?s0 = Some ([n], ?s1)"
    using assms(1) by (rule param_name_token) (simp add: not_name_chars)
  have 1: "pp_param_type ?s1 = Some ([''categorical''], ?s1b)"
    by (simp add: pp_param_type_def Word_def skip_ws_def pp_white_def Let_def)
  have 2: "Literal True ''{'' ?s1b = Some ([''{''], ?s2)"
    by (simp add: Literal_def skip_ws_def pp_white_def Let_def)
  have 3: "pp_choices ?s2 = Some (c # more_choice_tokens cs, ?s3)"
    using assms(2,3) by (rule choices_token)
  have 4: "Literal True ''}'' ?s3 = Some ([''}''], ?s4)"
    by (simp add: Literal_def skip_ws_def pp_white_def Let_def)
  have 5: "Literal True ''['' ?s4 = Some ([''[''], ?s5)"
    by (simp add: Literal_def skip_ws_def pp_white_def Let_def)
  have 6: "pp_param_name ?s5 = Some ([d], ?s6)"
    using assms(4) by (rule param_name_token) (simp add: not_name_chars)
  have 7: "Literal True '']'' ?s6 = Some (['']''], [])"
    by (simp add: Literal_def skip_ws_def pp_white_def Let_def)
  have "pcs_pp_cat_param ?s0 =
        Some ([n] @ [''categorical''] @ [''{''] @ (c # more_choice_tokens cs) @ [''}''] @ [''['']
              @ [d] @ ['']''] @ [], [])"
    using 0 1 2 3 4 5 6 7 by (simp add: pcs_pp_cat_param_def)
  moreover have "pcs_build_categorical n (c # cs) d = ?s0"
    by (simp add: pcs_build_categorical_def join_more_choices)
  ultimately show ?thesis by simp
qed

lemma every_second_choices: "every_second (c # more_choice_tokens cs) = c # cs"
  by (induction cs arbitrary: c) simp_all

lemma categorical_tokens_decode:
  assumes "distinct (c # cs)" "d \<in> set (c # cs)"
  shows "pcs_decode_cat ([n, ''categorical'', ''{'', c] @ more_choice_tokens cs @ [''}'', ''['', d, '']''])
         = Inr (Categorical n (c # cs) d)"
proof -
  let ?ts = "[n, ''categorical'', ''{'', c] @ more_choice_tokens cs @ [''}'', ''['', d, '']'']"
  have "slice2 ?ts 3 4 = c # cs"
    using every_second_choices [of c cs] by (simp add: slice2_def)
  moreover have "?ts ! (length ?ts - 2) = d"
    by (simp add: nth_append)
  ultimately show ?thesis
    using assms
    by (simp add: pcs_decode_cat_def item_def CategoricalHyperparameter_def
          del: distinct.simps set_simps)
qed

lemma plain_text_append [simp]: "plain_text (a @ b) = (plain_text a \<and> plain_text b)"
  by (simp add: plain_text_def)

lemma plain_text_Cons: "plain_text (c # s) = ((c \<in> set name_chars \<or> c \<in> set '' ,{}[]='') \<and> plain_text s)"
  by (simp add: plain_text_def)

lemma plain_text_Nil [simp]: "plain_text []"
  by (simp add: plain_text_def)

lemma name_token_plain: "name_token w \<Longrightarrow> plain_text w"
  by (auto simp: name_token_def plain_text_def list_all_iff)

lemma not_plain_chars:
  "\<not> (CHR ''#'' \<in> set name_chars \<or> CHR ''#'' \<in> set '' ,{}[]='')"
  "\<not> (CHR 0x22 \<in> set name_chars \<or> CHR 0x22 \<in> set '' ,{}[]='')"
  "\<not> (CHR 0x27 \<in> set name_chars \<or> CHR 0x27 \<in> set '' ,{}[]='')"
  "\<not> (CHR ''|'' \<in> set name_chars \<or> CHR ''|'' \<in> set '' ,{}[]='')"
  "\<not> (CHR 0x0A \<in> set name_chars \<or> CHR 0x0A \<in> set '' ,{}[]='')"
  "\<not> (CHR 0x09 \<in> set name_chars \<or> CHR 0x09 \<in> set '' ,{}[]='')"
  "\<not> (CHR 0x0B \<in> set name_chars \<or> CHR 0x0B \<in> set '' ,{}[]='')"
  "\<not> (CHR 0x0C \<in> set name_chars \<or> CHR 0x0C \<in> set '' ,{}[]='')"
  "\<not> (CHR 0x0D \<in> set name_chars \<or> CHR 0x0D \<in> set '' ,{}[]='')"
  by (simp_all add: name_chars_def alphanums_def alphas_def pp_digits_def)

lemma plain_text_chars:
  assumes "plain_text l" "c \<in> set l"
  shows "c \<noteq> CHR ''#''" "c \<noteq> CHR 0x22" "c \<noteq> CHR 0x27" "c \<noteq> CHR ''|''" "c \<noteq> CHR 0x0A"
    "c \<in> set py_space \<Longrightarrow> c = CHR '' ''"
proof -
  from assms have p: "c \<in> set name_chars \<or> c \<in> set '' ,{}[]=''"
    by (simp add: plain_text_def list_all_iff)
  show "c \<noteq> CHR ''#''" "c \<noteq> CHR 0x22" "c \<noteq> CHR 0x27" "c \<noteq> CHR ''|''" "c \<noteq> CHR 0x0A"
    using p not_plain_chars by blast+
  assume "c \<in> set py_space"
  then consider "c = CHR '' ''" | "c = CHR 0x09" | "c = CHR 0x0A" | "c = CHR 0x0B" | "c = CHR 0x0C"
    | "c = CHR 0x0D"
    by (auto simp: py_space_def)
  then show "c = CHR '' ''"
    using p not_plain_chars by cases blast+
qed

lemma clean_plain_text:
  assumes "plain_text l" "l \<noteq> []" "hd l \<noteq> CHR '' ''" "last l \<noteq> CHR '' ''"
  shows "clean_line l = l"
proof -
  have 1: "takeWhile (\<lambda>c. c \<noteq> CHR ''#'') l = l"
    using plain_text_chars(1) [OF assms(1)] by (simp add: takeWhile_eq_all_conv)
  have 2: "filter (\<lambda>c. c \<noteq> CHR 0x22 \<and> c \<noteq> CHR 0x27) l = l"
    using plain_text_chars(2,3) [OF assms(1)] by (simp add: filter_id_conv)
  have a: "hd l \<notin> set py_space"
    using plain_text_chars(6) [OF assms(1), of "hd l"] assms(2,3) by auto
  have b: "last l \<notin> set py_space"
    using plain_text_chars(6) [OF assms(1), of "last l"] assms(2,4) by auto
  have 3: "dropWhile (\<lambda>c. c \<in> set py_space) l = l"
    using a assms(2) by (cases l) simp_all
  have 4: "dropWhile (\<lambda>c. c \<in> set py_space) (rev l) = rev l"
    using b assms(2) by (cases "rev l") (simp_all add: last_rev [symmetric] del: last_rev)
  show ?thesis by (simp add: clean_line_def strip_def 1 2 3 4)
qed

lemma categorical_literals_plain:
  "plain_text '' categorical {''" "plain_text ''} [''" "plain_text '']''" "plain_text '', ''"
  "plain_text ''{''" "plain_text ''}''" "plain_text ''=''"
  by (simp_all add: plain_text_def name_chars_def alphanums_def alphas_def pp_digits_def)

lemma more_choices_plain: "list_all name_token cs \<Longrightarrow> plain_text (more_choices cs)"
proof (induction cs)
  case Nil
  then show ?case by simp
next
  case (Cons c cs)
  then have "name_token c" "plain_text (more_choices cs)" by simp_all
  then have "plain_text ('', '' @ c @ more_choices cs)"
    by (simp only: plain_text_append categorical_literals_plain name_token_plain simp_thms)
  then show ?case by simp
qed

lemma categorical_line_plain:
  assumes "name_token n" "name_token c" "list_all name_token cs" "name_token d"
  shows "plain_text (pcs_build_categorical n (c # cs) d)"
    and "pcs_build_categorical n (c # cs) d \<noteq> []"
    and "hd (pcs_build_categorical n (c # cs) d) \<in> set name_chars"
    and "last (pcs_build_categorical n (c # cs) d) = CHR '']''"
    and "CHR '']'' \<in> set (pcs_build_categorical n (c # cs) d)"
proof -
  show "plain_text (pcs_build_categorical n (c # cs) d)"
    unfolding pcs_build_categorical_def join_more_choices
    by (simp only: plain_text_append categorical_literals_plain name_token_plain assms
          more_choices_plain simp_thms)
  from assms(1) have "n \<noteq> []" "hd n \<in> set name_chars"
    by (auto simp: name_token_def list_all_iff)
  then show "pcs_build_categorical n (c # cs) d \<noteq> []"
    "hd (pcs_build_categorical n (c # cs) d) \<in> set name_chars"
    "last (pcs_build_categorical n (c # cs) d) = CHR '']''"
    "CHR '']'' \<in> set (pcs_build_categorical n (c # cs) d)"
    by (simp_all add: pcs_build_categorical_def)
qed

lemma read_categorical_line:
  assumes "name_token n" "name_token c" "list_all name_token cs" "name_token d"
    "distinct (c # cs)" "d \<in> set (c # cs)"
    "n \<notin> set (map name (hyperparameters (configuration_space st)))"
  shows "pcs_read_line N st (pcs_build_categorical n (c # cs) d) =
         Inr (st\<lparr>configuration_space :=
                  (configuration_space st)\<lparr>hyperparameters :=
                     hyperparameters (configuration_space st) @ [Categorical n (c # cs) d]\<rparr>\<rparr>)"
proof -
  let ?l = "pcs_build_categorical n (c # cs) d"
  let ?ts = "[n, ''categorical'', ''{'', c] @ more_choice_tokens cs @ [''}'', ''['', d, '']'']"
  note p = categorical_line_plain [OF assms(1-4)]
  have hd: "hd ?l \<noteq> CHR '' ''" "hd ?l \<noteq> CHR ''{''"
    using p(3) not_name_chars by auto
  have clean: "clean_line ?l = ?l"
    using p(1,2) hd(1) by (rule clean_plain_text) (simp add: p(4))
  have bar: "CHR ''|'' \<notin> set ?l"
    using plain_text_chars(4) [OF p(1)] by blast
  have cat: "parseString pcs_pp_cat_param ?l = Some ?ts"
    using categorical_line_tokens [OF assms(1-4)] by (simp add: parseString_def)
  then have cont: "parseString pcs_pp_cont_param ?l = None"
    using pcs_grammars_exclusive [of ?l] by (cases "parseString pcs_pp_cont_param ?l") auto
  have sw: "\<not> startswith ?l ''{''"
    using hd(2) p(2) by (cases ?l) (simp_all add: startswith_def)
  have "classify pcs_pp_condition pcs_pp_cont_param pcs_pp_cat_param ?l = CategoricalDeclaration ?ts"
    using bar p(5) sw cat cont by (simp add: classify_def)
  moreover have "pcs_decode_cat ?ts = (Inr (Categorical n (c # cs) d) :: error + 'a hyperparameter)"
    using assms(5,6) by (rule categorical_tokens_decode)
  ultimately show ?thesis
    using assms(7)
    by (simp add: pcs_body clean declare_hyperparameter_def add_hyperparameter_def
          del: distinct.simps)
qed

lemma stableD:
  assumes "stable c p"
  shows "p s = None \<Longrightarrow> p (s @ c # r) = None"
    and "p s = Some (ts, u) \<Longrightarrow> p (s @ c # r) = Some (ts, u @ c # r)"
  using assms [unfolded stable_def, rule_format, of s r] by simp_all

lemma stableI:
  assumes "\<And>s r. p s = None \<Longrightarrow> p (s @ c # r) = None"
    and "\<And>s r ts u. p s = Some (ts, u) \<Longrightarrow> p (s @ c # r) = Some (ts, u @ c # r)"
  shows "stable c p"
  unfolding stable_def using assms by (auto split: option.splits)

lemma skip_ws_stop: "c \<notin> set pp_white \<Longrightarrow> skip_ws b (s @ c # r) = skip_ws b s @ c # r"
  by (auto simp: skip_ws_def dropWhile_append)

lemma takeWhile_stop_at: "\<not> P c \<Longrightarrow> takeWhile P (xs @ c # r) = takeWhile P xs"
  by (induction xs) auto

lemma dropWhile_stop_at: "\<not> P c \<Longrightarrow> dropWhile P (xs @ c # r) = dropWhile P xs @ c # r"
  by (induction xs) auto

lemma stable_Word: "c \<notin> set cs \<Longrightarrow> c \<notin> set pp_white \<Longrightarrow> stable c (Word b cs)"
  by (rule stableI)
     (auto simp: Word_def Let_def skip_ws_stop takeWhile_stop_at dropWhile_stop_at split: if_splits)

lemma take_stop_at:
  assumes "c \<notin> set l"
  shows "(take (length l) (s @ c # r) = l) = (take (length l) s = l)"
proof (cases "length l \<le> length s")
  case True
  then show ?thesis by simp
next
  case False
  then have "take (length l) (s @ c # r) = s @ c # take (length l - Suc (length s)) r"
    by (simp add: take_Cons' not_le)
  then have "c \<in> set (take (length l) (s @ c # r))" by simp
  with assms have a: "take (length l) (s @ c # r) \<noteq> l" by metis
  from False have "length (take (length l) s) \<noteq> length l" by simp
  then have "take (length l) s \<noteq> l" by metis
  with a show ?thesis by simp
qed

lemma stable_Literal: "c \<notin> set l \<Longrightarrow> c \<notin> set pp_white \<Longrightarrow> stable c (Literal b l)"
proof (rule stableI)
  fix s r assume c: "c \<notin> set l" "c \<notin> set pp_white" and n: "Literal b l s = None"
  then show "Literal b l (s @ c # r) = None"
    by (simp add: Literal_def Let_def skip_ws_stop take_stop_at del: take_append split: if_splits)
next
  fix s r ts u assume c: "c \<notin> set l" "c \<notin> set pp_white" and n: "Literal b l s = Some (ts, u)"
  then have t: "take (length l) (skip_ws b s) = l" and ts: "ts = [l]"
    and u: "u = drop (length l) (skip_ws b s)"
    by (auto simp: Literal_def Let_def split: if_splits)
  from t have "length (take (length l) (skip_ws b s)) = length l" by simp
  then have "length l \<le> length (skip_ws b s)" by simp
  with c t ts u show "Literal b l (s @ c # r) = Some (ts, u @ c # r)"
    by (simp add: Literal_def Let_def skip_ws_stop take_stop_at del: take_append)
qed

lemma stable_And_Nil: "stable c (And [])"
  by (simp add: stable_def)

lemma stable_And_Cons:
  assumes p: "stable c p" and ps: "stable c (And ps)"
  shows "stable c (And (p # ps))"
proof (rule stableI)
  fix s r assume "And (p # ps) s = None"
  then show "And (p # ps) (s @ c # r) = None"
    using stableD [OF p] stableD [OF ps]
    by (auto split: option.splits)
next
  fix s r ts u assume "And (p # ps) s = Some (ts, u)"
  then show "And (p # ps) (s @ c # r) = Some (ts, u @ c # r)"
    using stableD [OF p] stableD [OF ps]
    by (auto split: option.splits)
qed

lemma stable_MatchFirst_Nil: "stable c (MatchFirst [])"
  by (simp add: stable_def)

lemma stable_MatchFirst_Cons:
  assumes p: "stable c p" and ps: "stable c (MatchFirst ps)"
  shows "stable c (MatchFirst (p # ps))"
proof (rule stableI)
  fix s r assume "MatchFirst (p # ps) s = None"
  then show "MatchFirst (p # ps) (s @ c # r) = None"
    using stableD [OF p] stableD [OF ps]
    by (auto split: option.splits)
next
  fix s r ts u assume "MatchFirst (p # ps) s = Some (ts, u)"
  then show "MatchFirst (p # ps) (s @ c # r) = Some (ts, u @ c # r)"
    using stableD [OF p] stableD [OF ps]
    by (auto split: option.splits)
qed

lemma stable_Optional:
  assumes "stable c p"
  shows "stable c (Optional p)"
proof (rule stableI)
  fix s r assume "Optional p s = None"
  then show "Optional p (s @ c # r) = None"
    by (simp add: Optional_def split: option.splits)
next
  fix s r ts u assume "Optional p s = Some (ts, u)"
  then show "Optional p (s @ c # r) = Some (ts, u @ c # r)"
    using stableD [OF assms] by (auto simp: Optional_def split: option.splits)
qed

lemma stable_Combine:
  assumes "stable c p" "c \<notin> set pp_white"
  shows "stable c (Combine b p)"
proof (rule stableI)
  fix s r assume "Combine b p s = None"
  then show "Combine b p (s @ c # r) = None"
    using stableD [OF assms(1)]
    by (auto simp: Combine_def skip_ws_stop [OF assms(2)] split: option.splits)
next
  fix s r ts u assume "Combine b p s = Some (ts, u)"
  then show "Combine b p (s @ c # r) = Some (ts, u @ c # r)"
    using stableD [OF assms(1)]
    by (auto simp: Combine_def skip_ws_stop [OF assms(2)] split: option.splits)
qed

lemma emitsI: "(\<And>s ts r. p s = Some (ts, r) \<Longrightarrow> set (concat ts) \<subseteq> C) \<Longrightarrow> emits C p"
  by (simp add: emits_def)

lemma emitsD: "emits C p \<Longrightarrow> p s = Some (ts, r) \<Longrightarrow> set (concat ts) \<subseteq> C"
  unfolding emits_def by blast

lemma emits_Word: "set cs \<subseteq> C \<Longrightarrow> emits C (Word b cs)"
  by (rule emitsI) (auto simp: Word_def Let_def split: if_splits dest!: set_takeWhileD)

lemma emits_Literal: "set l \<subseteq> C \<Longrightarrow> emits C (Literal b l)"
  by (rule emitsI) (auto simp: Literal_def Let_def split: if_splits)

lemma emits_And_Nil: "emits C (And [])"
  by (simp add: emits_def)

lemma emits_And_Cons:
  assumes p: "emits C p" and ps: "emits C (And ps)"
  shows "emits C (And (p # ps))"
proof (rule emitsI)
  fix s ts r assume "And (p # ps) s = Some (ts, r)"
  then obtain t1 r1 t2 where a: "p s = Some (t1, r1)" "And ps r1 = Some (t2, r)" "ts = t1 @ t2"
    by (auto split: option.splits)
  from emitsD [OF p a(1)] emitsD [OF ps a(2)] show "set (concat ts) \<subseteq> C"
    by (simp add: a(3))
qed

lemma emits_MatchFirst_Nil: "emits C (MatchFirst [])"
  by (simp add: emits_def)

lemma emits_MatchFirst_Cons:
  assumes p: "emits C p" and ps: "emits C (MatchFirst ps)"
  shows "emits C (MatchFirst (p # ps))"
proof (rule emitsI)
  fix s ts r assume "MatchFirst (p # ps) s = Some (ts, r)"
  then consider "p s = Some (ts, r)" | "MatchFirst ps s = Some (ts, r)"
    by (auto split: option.splits)
  then show "set (concat ts) \<subseteq> C"
  proof cases
    case 1
    then show ?thesis by (rule emitsD [OF p])
  next
    case 2
    then show ?thesis by (rule emitsD [OF ps])
  qed
qed

lemma emits_Optional:
  assumes e: "emits C p"
  shows "emits C (Optional p)"
proof (rule emitsI)
  fix s ts r assume "Optional p s = Some (ts, r)"
  then consider "ts = []" | "p s = Some (ts, r)"
    by (auto simp: Optional_def split: option.splits)
  then show "set (concat ts) \<subseteq> C"
  proof cases
    case 1
    then show ?thesis by simp
  next
    case 2
    then show ?thesis by (rule emitsD [OF e])
  qed
qed

lemma emits_Combine:
  assumes e: "emits C p"
  shows "emits C (Combine b p)"
proof (rule emitsI)
  fix s ts r assume "Combine b p s = Some (ts, r)"
  then obtain us where a: "p (skip_ws b s) = Some (us, r)" "ts = [concat us]"
    by (auto simp: Combine_def split: option.splits)
  from emitsD [OF e a(1)] show "set (concat ts) \<subseteq> C" by (simp add: a(2))
qed

lemmas stable_rules = stable_And_Nil stable_And_Cons stable_MatchFirst_Nil stable_MatchFirst_Cons
  stable_Optional stable_Combine stable_Word stable_Literal

lemmas emits_rules = emits_And_Nil emits_And_Cons emits_MatchFirst_Nil emits_MatchFirst_Cons
  emits_Optional emits_Combine emits_Word emits_Literal

lemma number_stable:
  assumes "c \<notin> set (''+-.eE'' @ pp_digits @ pp_white)"
  shows "stable c pp_number"
  unfolding pp_number_def pp_e_notation_def pp_float_def pp_int_def pp_floatorint_def
    pp_eorE_def pp_plusorminus_def
  by (intro stable_rules) (use assms in simp_all)

lemma number_emits: "emits (set (''+-.eE'' @ pp_digits)) pp_number"
  unfolding pp_number_def pp_e_notation_def pp_float_def pp_int_def pp_floatorint_def
    pp_eorE_def pp_plusorminus_def
  by (intro emits_rules) auto

lemma number_chars_are_name_chars: "set (''+-.eE'' @ pp_digits) \<subseteq> set name_chars"
  by (simp add: name_chars_def alphanums_def alphas_def pp_digits_def)

lemma number_token_name:
  assumes "number_token t"
  shows "name_token t"
proof -
  from assms have p: "pp_number t = Some ([t], [])" by (simp add: number_token_def)
  have "pp_number [] = None" by code_simp
  with p have "t \<noteq> []" by auto
  moreover have "set (concat [t]) \<subseteq> set (''+-.eE'' @ pp_digits)"
    by (rule emitsD [OF number_emits p])
  then have "set (concat [t]) \<subseteq> set name_chars"
    using number_chars_are_name_chars by (rule subset_trans)
  then have "set t \<subseteq> set name_chars" by simp
  ultimately show ?thesis by (auto simp: name_token_def list_all_iff)
qed

lemma value_token_name:
  assumes "value_token v"
  shows "name_token v"
proof (cases "pp_number v")
  case None
  with assms have "pp_param_name v = Some ([v], [])"
    by (auto simp: value_token_def pp_numberorname_def split: option.splits)
  then have v: "takeWhile (\<lambda>c. c \<in> set name_chars) (skip_ws True v) = v" "v \<noteq> []"
    by (auto simp: pp_param_name_def Word_def Let_def split: if_splits)
  then have "\<forall>c\<in>set v. c \<in> set name_chars"
    by (metis set_takeWhileD)
  with v(2) show ?thesis by (simp add: name_token_def list_all_iff)
next
  case (Some r)
  with assms have "number_token v"
    by (simp add: value_token_def pp_numberorname_def number_token_def)
  then show ?thesis by (rule number_token_name)
qed

lemma stop_chars:
  "CHR '','' \<notin> set (''+-.eE'' @ pp_digits @ pp_white)"
  "CHR ''}'' \<notin> set (''+-.eE'' @ pp_digits @ pp_white)"
  "CHR '']'' \<notin> set (''+-.eE'' @ pp_digits @ pp_white)"
  "CHR '','' \<notin> set pp_white" "CHR ''}'' \<notin> set pp_white" "CHR '']'' \<notin> set pp_white"
  by (simp_all add: pp_digits_def pp_white_def)

lemma number_token_stop:
  assumes "number_token t" "x = CHR '','' \<or> x = CHR '']''"
  shows "pp_number (t @ x # r) = Some ([t], x # r)"
proof -
  from assms(2) have "stable x pp_number"
    using stop_chars by (auto intro: number_stable)
  from stableD(2) [OF this, of t "[t]" "[]" r] assms(1) show ?thesis
    by (simp add: number_token_def)
qed

lemma numberorname_token:
  assumes "value_token v" "x = CHR '','' \<or> x = CHR ''}''"
  shows "pp_numberorname (v @ x # r) = Some ([v], x # r)"
proof -
  from assms(2) have "stable x pp_number" "stable x pp_param_name"
    unfolding pp_param_name_def
    using stop_chars not_name_chars by (auto intro: number_stable stable_Word)
  then have "stable x pp_numberorname"
    unfolding pp_numberorname_def by (intro stable_rules)
  from stableD(2) [OF this, of v "[v]" "[]" r] assms(1) show ?thesis
    by (simp add: value_token_def)
qed

lemma Combine_blank: "Combine True p (CHR '' '' # s) = Combine True p s"
  by (simp add: Combine_def skip_ws_blank)

lemma number_blank: "pp_number (CHR '' '' # s) = pp_number s"
  by (simp add: pp_number_def pp_e_notation_def pp_float_def pp_int_def Combine_blank
        split: option.splits)

lemma continuous_text:
  "pcs_build_continuous N n lo hi d is_int lg None =
     n @ '' '' @ (if is_int then ''integer'' else ''real'') @ '' ['' @ printed N is_int lo @ '', ''
       @ printed N is_int hi @ ''] ['' @ printed N is_int d @ '']'' @ (if lg then ''log'' else [])"
  by (simp add: pcs_build_continuous_def q_prefix_def printed_def)

lemma continuous_line_tokens:
  assumes "name_token n" "number_token tlo" "number_token thi" "number_token td"
    and "ty = ''integer'' \<or> ty = ''real''"
  shows "pcs_pp_cont_param
           (n @ '' '' @ ty @ '' ['' @ tlo @ '', '' @ thi @ ''] ['' @ td @ '']''
              @ (if lg then ''log'' else []))
         = Some ([n, ty, ''['', tlo, '','', thi, '']'', ''['', td, '']'']
                 @ (if lg then [''log''] else []), [])"
proof -
  let ?s10 = "(if lg then ''log'' else [])"
  let ?s9 = "CHR '']'' # ?s10"
  let ?s8 = "td @ ?s9"
  let ?s7 = "'' ['' @ ?s8"
  let ?s6 = "CHR '']'' # ?s7"
  let ?s5 = "thi @ ?s6"
  let ?s4b = "CHR '' '' # ?s5"
  let ?s4 = "CHR '','' # ?s4b"
  let ?s3 = "tlo @ ?s4"
  let ?s2 = "'' ['' @ ?s3"
  let ?s1 = "CHR '' '' # ty @ ?s2"
  let ?s0 = "n @ ?s1"
  have 0: "pp_param_name ?s0 = Some ([n], ?s1)"
    using assms(1) by (rule param_name_token) (simp add: not_name_chars)
  have 1: "pp_param_type ?s1 = Some ([ty], ?s2)"
    using assms(5) by (auto simp: pp_param_type_def Word_def skip_ws_def pp_white_def Let_def)
  have 2: "Literal True ''['' ?s2 = Some ([''[''], ?s3)"
    by (simp add: Literal_def skip_ws_def pp_white_def Let_def)
  have 3: "pp_number ?s3 = Some ([tlo], ?s4)"
    using assms(2) by (rule number_token_stop) simp
  have 4: "Literal True '','' ?s4 = Some (['',''], ?s4b)"
    by (simp add: Literal_def skip_ws_def pp_white_def Let_def)
  have 5: "pp_number ?s4b = Some ([thi], ?s6)"
    unfolding number_blank using assms(3) by (rule number_token_stop) simp
  have 6: "Literal True '']'' ?s6 = Some (['']''], ?s7)"
    by (simp add: Literal_def skip_ws_def pp_white_def Let_def)
  have 7: "Literal True ''['' ?s7 = Some ([''[''], ?s8)"
    by (simp add: Literal_def skip_ws_def pp_white_def Let_def)
  have 8: "pp_number ?s8 = Some ([td], ?s9)"
    using assms(4) by (rule number_token_stop) simp
  have 9: "Literal True '']'' ?s9 = Some (['']''], ?s10)"
    by (simp add: Literal_def skip_ws_def pp_white_def Let_def)
  have 10: "Optional pp_log ?s10 = Some ((if lg then [''log''] else []), [])"
    by (simp add: Optional_def pp_log_def Word_def skip_ws_def pp_white_def Let_def)
  have "pcs_pp_cont_param ?s0 =
        Some ([n] @ [ty] @ [''[''] @ [tlo] @ ['',''] @ [thi] @ ['']''] @ [''[''] @ [td] @ ['']'']
              @ (if lg then [''log''] else []) @ [], [])"
    using 0 1 2 3 4 5 6 7 8 9 10 by (simp add: pcs_pp_cont_param_def)
  then show ?thesis by simp
qed

lemma integer_is_no_number: "number_token t \<Longrightarrow> t \<noteq> ''integer''"
proof
  assume "number_token t" "t = ''integer''"
  then have "pp_number ''integer'' = Some ([''integer''], [])" by (simp add: number_token_def)
  moreover have "pp_number ''integer'' = None" by code_simp
  ultimately show False by simp
qed

lemma continuous_tokens_decode:
  assumes "py_float N tlo = Some lo" "py_float N thi = Some hi" "py_float N td = Some d"
    and "num_less N lo hi" "num_le N lo d" "num_le N d hi"
    and "number_token tlo" "number_token thi" "number_token td"
    and "is_int \<or> n \<noteq> ''integer''"
  shows "pcs_decode_cont N ([n, if is_int then ''integer'' else ''real'', ''['', tlo, '','', thi,
                              '']'', ''['', td, '']''] @ (if lg then [''log''] else []))
         = Inr (Continuous n lo hi d is_int lg None)"
proof -
  have c: "contains ''log'' ''log''" by code_simp
  note integer_is_no_number [OF assms(7)] integer_is_no_number [OF assms(8)]
    integer_is_no_number [OF assms(9)]
  with assms(1-6,10) c show ?thesis
    by (auto simp: pcs_decode_cont_def item_def to_float_def Let_def
          UniformIntegerHyperparameter_def UniformFloatHyperparameter_def)
qed

lemma continuous_literals_plain:
  "plain_text '' ''" "plain_text ''integer''" "plain_text ''real''" "plain_text '' [''"
  "plain_text ''] [''" "plain_text ''log''"
  by (simp_all add: plain_text_def name_chars_def alphanums_def alphas_def pp_digits_def)

lemma continuous_line_plain:
  assumes "name_token n" "number_token tlo" "number_token thi" "number_token td"
    and "ty = ''integer'' \<or> ty = ''real''"
  shows "plain_text (n @ '' '' @ ty @ '' ['' @ tlo @ '', '' @ thi @ ''] ['' @ td @ '']''
                      @ (if lg then ''log'' else []))"
  using assms(5) number_token_name [OF assms(2)] number_token_name [OF assms(3)]
    number_token_name [OF assms(4)] assms(1)
  by (auto simp only: plain_text_append categorical_literals_plain continuous_literals_plain
        name_token_plain plain_text_Nil simp_thms split: if_splits)

lemma read_continuous_line:
  assumes "name_token n" "read_back N is_int lo" "read_back N is_int hi" "read_back N is_int d"
    and "num_less N lo hi" "num_le N lo d" "num_le N d hi"
    and "is_int \<or> n \<noteq> ''integer''"
    and "n \<notin> set (map name (hyperparameters (configuration_space st)))"
  shows "pcs_read_line N st (pcs_build_continuous N n lo hi d is_int lg None) =
         Inr (st\<lparr>configuration_space :=
                  (configuration_space st)\<lparr>hyperparameters :=
                     hyperparameters (configuration_space st)
                     @ [Continuous n lo hi d is_int lg None]\<rparr>\<rparr>)"
proof -
  let ?ty = "if is_int then ''integer'' else ''real''"
  let ?tlo = "printed N is_int lo" and ?thi = "printed N is_int hi" and ?td = "printed N is_int d"
  let ?l = "n @ '' '' @ ?ty @ '' ['' @ ?tlo @ '', '' @ ?thi @ ''] ['' @ ?td @ '']''
              @ (if lg then ''log'' else [])"
  let ?ts = "[n, ?ty, ''['', ?tlo, '','', ?thi, '']'', ''['', ?td, '']'']
             @ (if lg then [''log''] else [])"
  from assms(2-4) have nt: "number_token ?tlo" "number_token ?thi" "number_token ?td"
    and fl: "py_float N ?tlo = Some lo" "py_float N ?thi = Some hi" "py_float N ?td = Some d"
    by (simp_all add: read_back_def)
  have ty: "?ty = ''integer'' \<or> ?ty = ''real''" by simp
  have l: "pcs_build_continuous N n lo hi d is_int lg None = ?l"
    by (rule continuous_text)
  have p: "plain_text ?l"
    using assms(1) nt ty by (rule continuous_line_plain)
  from assms(1) have n: "n \<noteq> []" "hd n \<in> set name_chars"
    by (auto simp: name_token_def list_all_iff)
  then have ne: "?l \<noteq> []" and hd: "hd ?l \<noteq> CHR '' ''" "hd ?l \<noteq> CHR ''{''"
    using not_name_chars by auto
  have last: "last ?l \<noteq> CHR '' ''" by simp
  have br: "CHR '']'' \<in> set ?l" by simp
  have clean: "clean_line ?l = ?l"
    using p ne hd(1) last by (rule clean_plain_text)
  have bar: "CHR ''|'' \<notin> set ?l"
    using plain_text_chars(4) [OF p] by blast
  have cont: "parseString pcs_pp_cont_param ?l = Some ?ts"
    using continuous_line_tokens [OF assms(1) nt ty, of lg] by (simp add: parseString_def)
  have sw: "\<not> startswith ?l ''{''"
    using hd(2) ne by (cases ?l) (simp_all add: startswith_def)
  have cl: "classify pcs_pp_condition pcs_pp_cont_param pcs_pp_cat_param ?l
               = ContinuousDeclaration ?ts"
    using bar br sw by (simp only: classify_def cont if_False if_True simp_thms option.case)
  have dec: "pcs_decode_cont N ?ts = Inr (Continuous n lo hi d is_int lg None)"
    using fl assms(5-7) nt assms(8) by (rule continuous_tokens_decode)
  have "pcs_read_line N st ?l =
        line_effect (pcs_decode_cont N) pcs_decode_cat st (clean_line ?l)
          (classify pcs_pp_condition pcs_pp_cont_param pcs_pp_cat_param (clean_line ?l))"
    by (rule pcs_body)
  also have "\<dots> = declare_hyperparameter st (pcs_decode_cont N ?ts)"
    by (simp only: clean cl line_effect.simps)
  also have "\<dots> = Inr (st\<lparr>configuration_space :=
                  (configuration_space st)\<lparr>hyperparameters :=
                     hyperparameters (configuration_space st)
                     @ [Continuous n lo hi d is_int lg None]\<rparr>\<rparr>)"
    using assms(9) unfolding dec
    by (simp add: declare_hyperparameter_def add_hyperparameter_def)
  finally show ?thesis by (simp only: l)
qed

lemma clause_text_pairs:
  "clause_text ((h, v) # ps) = ''{'' @ name h @ ''='' @ v @ more_pairs (named ps) @ ''}''"
proof -
  have "join '', '' (map equality_text ((h, v) # ps)) = name h @ ''='' @ v @ more_pairs (named ps)"
    by (induction ps arbitrary: h v) (auto simp: equality_text_def named_def)
  then show ?thesis by (simp add: clause_text_def)
qed

lemma more_pairs_next:
  "\<exists>x r. more_pairs ps @ ''}'' = x # r \<and> (x = CHR '','' \<or> x = CHR ''}'')"
  by (cases ps) auto

lemma pair_step:
  assumes "name_token n" "value_token v"
  shows "And [Literal True '','', pp_param_name, Literal True ''='', pp_numberorname]
           ('', '' @ n @ ''='' @ v @ more_pairs ps @ ''}'') =
         Some (['','', n, ''='', v], more_pairs ps @ ''}'')"
proof -
  obtain x r where xr: "more_pairs ps @ ''}'' = x # r" "x = CHR '','' \<or> x = CHR ''}''"
    using more_pairs_next by blast
  let ?s3 = "v @ more_pairs ps @ ''}''"
  let ?s2 = "CHR ''='' # ?s3"
  let ?s1 = "CHR '' '' # n @ ?s2"
  let ?s0 = "CHR '','' # ?s1"
  have 0: "Literal True '','' ?s0 = Some (['',''], ?s1)"
    by (simp add: Literal_def skip_ws_def pp_white_def)
  have 1: "pp_param_name ?s1 = Some ([n], ?s2)"
    using param_name_before [OF assms(1), of "CHR ''=''" ?s3]
    by (simp add: param_name_blank not_name_chars)
  have 2: "Literal True ''='' ?s2 = Some ([''=''], ?s3)"
    by (simp add: Literal_def skip_ws_def pp_white_def)
  have 3: "pp_numberorname ?s3 = Some ([v], more_pairs ps @ ''}'')"
    using numberorname_token [OF assms(2) xr(2), of r] by (simp only: xr(1))
  show ?thesis
    using 0 1 2 3 by simp
qed

lemma pairs_tail:
  "list_all pair_token ps \<Longrightarrow>
   repeat_expr (And [Literal True '','', pp_param_name, Literal True ''='', pp_numberorname])
     (more_pairs ps @ ''}'') = (more_pair_tokens ps, ''}'')"
proof (induction ps)
  case Nil
  show ?case
    by (subst repeat_expr.simps) (simp add: Literal_def skip_ws_def pp_white_def)
next
  case (Cons p ps)
  obtain n v where p: "p = (n, v)" by (cases p)
  with Cons.prems have nv: "name_token n" "value_token v" and ps: "list_all pair_token ps"
    by (simp_all add: pair_token_def)
  have step: "And [Literal True '','', pp_param_name, Literal True ''='', pp_numberorname]
                (more_pairs (p # ps) @ ''}'') = Some (['','', n, ''='', v], more_pairs ps @ ''}'')"
    using pair_step [OF nv, of ps] by (simp add: p)
  have "length (more_pairs ps @ ''}'') < length (more_pairs (p # ps) @ ''}'')"
    by (simp add: p)
  with step Cons.IH [OF ps] show ?case
    by (subst repeat_expr.simps) (simp add: p del: more_pairs.simps And.simps)
qed

lemma forbidden_line_tokens:
  assumes "name_token n" "value_token v" "list_all pair_token ps"
  shows "pp_forbidden_clause (''{'' @ n @ ''='' @ v @ more_pairs ps @ ''}'') =
         Some (''{'' # n # ''='' # v # more_pair_tokens ps @ [''}''], [])"
proof -
  obtain x r where xr: "more_pairs ps @ ''}'' = x # r" "x = CHR '','' \<or> x = CHR ''}''"
    using more_pairs_next by blast
  let ?s4 = "more_pairs ps @ ''}''"
  let ?s3 = "v @ ?s4"
  let ?s2 = "CHR ''='' # ?s3"
  let ?s1 = "n @ ?s2"
  let ?s0 = "CHR ''{'' # ?s1"
  let ?p = "And [Literal True '','', pp_param_name, Literal True ''='', pp_numberorname]"
  have 0: "Literal True ''{'' ?s0 = Some ([''{''], ?s1)"
    by (simp add: Literal_def skip_ws_def pp_white_def)
  have 1: "pp_param_name ?s1 = Some ([n], ?s2)"
    using assms(1) by (rule param_name_before) (simp add: not_name_chars)
  have 2: "Literal True ''='' ?s2 = Some ([''=''], ?s3)"
    by (simp add: Literal_def skip_ws_def pp_white_def)
  have 3: "pp_numberorname ?s3 = Some ([v], ?s4)"
    using numberorname_token [OF assms(2) xr(2), of r] by (simp only: xr(1))
  have 4: "Optional (OneOrMore ?p) ?s4 = Some (more_pair_tokens ps, ''}'')"
  proof (cases ps)
    case Nil
    then show ?thesis
      by (simp add: Optional_def OneOrMore_def Literal_def skip_ws_def pp_white_def)
  next
    case (Cons q qs)
    obtain n' v' where q: "q = (n', v')" by (cases q)
    from assms(3) Cons q have nv: "name_token n'" "value_token v'" and qs: "list_all pair_token qs"
      by (simp_all add: pair_token_def)
    have step: "?p ?s4 = Some (['','', n', ''='', v'], more_pairs qs @ ''}'')"
      using pair_step [OF nv, of qs] by (simp add: Cons q)
    with pairs_tail [OF qs] show ?thesis
      by (simp add: Optional_def OneOrMore_def Cons q del: And.simps more_pairs.simps)
  qed
  have 5: "Literal True ''}'' ''}'' = Some ([''}''], [])"
    by (simp add: Literal_def skip_ws_def pp_white_def)
  have "pp_forbidden_clause ?s0 =
        Some ([''{''] @ [n] @ [''=''] @ [v] @ more_pair_tokens ps @ [''}''], [])"
    unfolding pp_forbidden_clause_def
    using 0 1 2 3 4 5 by (simp del: more_pairs.simps)
  then show ?thesis by simp
qed

lemma forbidden_triples_pairs:
  assumes "\<forall>(h, v)\<in>set ((h0, v0) # hps). get_hyperparameter cs (name h) = Inr h"
  shows "forbidden_triples cs (name h0 # ''='' # v0 # more_pair_tokens (named hps) @ [''}'']) [] acc =
         Inr (acc @ map equals_of ((h0, v0) # hps))"
  using assms
proof (induction hps arbitrary: h0 v0 acc)
  case Nil
  then show ?case by (simp add: named_def equals_of_def)
next
  case (Cons p hps)
  obtain h v where p: "p = (h, v)" by (cases p)
  from Cons.prems have 0: "get_hyperparameter cs (name h0) = Inr h0"
    and rest: "\<forall>(h, v)\<in>set ((h, v) # hps). get_hyperparameter cs (name h) = Inr h"
    by (auto simp: p)
  have "forbidden_triples cs (name h0 # ''='' # v0 # more_pair_tokens (named (p # hps)) @ [''}'']) [] acc
        = forbidden_triples cs (name h # ''='' # v # more_pair_tokens (named hps) @ [''}'']) []
            (acc @ [ForbiddenEqualsClause h0 v0])"
    using 0 by (simp add: p named_def)
  also have "\<dots> = Inr ((acc @ [ForbiddenEqualsClause h0 v0]) @ map equals_of ((h, v) # hps))"
    using rest by (rule Cons.IH)
  finally show ?case by (simp add: p equals_of_def)
qed

lemma read_lines_append:
  "read_lines body (xs @ ys) st = bind_err (read_lines body xs st) (read_lines body ys)"
proof (induction xs arbitrary: st)
  case Nil
  then show ?case by simp
next
  case (Cons x xs)
  then show ?case by (cases "body st x") simp_all
qed

lemma read_blank_line: "pcs_read_line N st [] = Inr st"
  by (simp add: pcs_body clean_line_def strip_def classify_def)

lemma writable_name: "writable_hyperparameter N h \<Longrightarrow> name_token (name h)"
  by (cases h) simp_all

lemma read_declaration_line:
  assumes "writable_hyperparameter N h"
    and "name h \<notin> set (map name (hyperparameters (configuration_space st)))"
  shows "pcs_read_line N st (pcs_build_hyperparameter N h) =
         Inr (st\<lparr>configuration_space :=
                  (configuration_space st)\<lparr>hyperparameters :=
                     hyperparameters (configuration_space st) @ [h]\<rparr>\<rparr>)"
proof (cases h)
  case (Continuous n lo hi d is_int lg q)
  with assms(1) have q: "q = None" by simp
  from assms show ?thesis
    unfolding Continuous q pcs_build_hyperparameter.simps
    by (intro read_continuous_line) simp_all
next
  case (Categorical n cs d)
  with assms(1) obtain c cs' where cs: "cs = c # cs'"
    by (cases cs) simp_all
  from assms(1) have w: "name_token n" "name_token c" "list_all name_token cs'"
    "distinct (c # cs')" "d \<in> set (c # cs')"
    by (simp_all add: Categorical cs)
  then have d: "name_token d" by (auto simp: list_all_iff)
  from assms(2) have "n \<notin> set (map name (hyperparameters (configuration_space st)))"
    by (simp add: Categorical)
  with w d show ?thesis
    unfolding Categorical cs pcs_build_hyperparameter.simps by (intro read_categorical_line)
next
  case (Constant n v)
  with assms(1) show ?thesis by simp
qed

lemma read_param_lines:
  assumes "list_all (writable_hyperparameter N) hs" "distinct (map name hs)"
    "set (map name hs) \<inter> set (map name (hyperparameters (configuration_space st))) = {}"
  shows "read_lines (pcs_read_line N) (map (pcs_build_hyperparameter N) hs) st =
         Inr (st\<lparr>configuration_space :=
                  (configuration_space st)\<lparr>hyperparameters :=
                     hyperparameters (configuration_space st) @ hs\<rparr>\<rparr>)"
  using assms
proof (induction hs arbitrary: st)
  case Nil
  then show ?case by simp
next
  case (Cons h hs)
  let ?st = "st\<lparr>configuration_space :=
                  (configuration_space st)\<lparr>hyperparameters :=
                     hyperparameters (configuration_space st) @ [h]\<rparr>\<rparr>"
  from Cons.prems(1) have wh: "writable_hyperparameter N h" by simp
  from Cons.prems(3) have "name h \<notin> set (map name (hyperparameters (configuration_space st)))"
    by auto
  with wh have step: "pcs_read_line N st (pcs_build_hyperparameter N h) = Inr ?st"
    by (rule read_declaration_line)
  have "set (map name hs) \<inter> set (map name (hyperparameters (configuration_space ?st))) = {}"
    using Cons.prems(2,3) by auto
  with Cons.prems(1,2) have
    "read_lines (pcs_read_line N) (map (pcs_build_hyperparameter N) hs) ?st =
     Inr (?st\<lparr>configuration_space :=
                  (configuration_space ?st)\<lparr>hyperparameters :=
                     hyperparameters (configuration_space ?st) @ hs\<rparr>\<rparr>)"
    by (intro Cons.IH) simp_all
  with step show ?case by simp
qed

lemma writable_pairs_named:
  assumes "list_all (writable_hyperparameter N) hs" "writable_pairs hs pairs"
  shows "pairs \<noteq> []" "list_all pair_token (named pairs)"
  using assms
  by (auto simp: writable_pairs_def named_def pair_token_def list_all_iff
           dest!: writable_name)

lemma more_pairs_plain: "list_all pair_token ps \<Longrightarrow> plain_text (more_pairs ps)"
proof (induction ps)
  case Nil
  then show ?case by simp
next
  case (Cons p ps)
  obtain n v where p: "p = (n, v)" by (cases p)
  with Cons have "name_token n" "name_token v" "plain_text (more_pairs ps)"
    by (simp_all add: pair_token_def value_token_name)
  then have "plain_text ('', '' @ n @ ''='' @ v @ more_pairs ps)"
    by (simp only: plain_text_append categorical_literals_plain name_token_plain simp_thms)
  then show ?case by (simp add: p)
qed

lemma forbidden_line_shape:
  assumes "list_all (writable_hyperparameter N) hs" "writable_pairs hs pairs"
  shows "clean_line (clause_text pairs) = clause_text pairs"
    and "CHR ''|'' \<notin> set (clause_text pairs)"
    and "CHR ''}'' \<in> set (clause_text pairs)"
    and "startswith (clause_text pairs) ''{''" and "endswith (clause_text pairs) ''}''"
proof -
  note w = writable_pairs_named [OF assms]
  obtain h v ps where pairs: "pairs = (h, v) # ps" using w(1) by (cases pairs) auto
  from w(2) have t: "name_token (name h)" "name_token v" "list_all pair_token (named ps)"
    by (simp_all add: pairs named_def pair_token_def value_token_name)
  let ?l = "''{'' @ name h @ ''='' @ v @ more_pairs (named ps) @ ''}''"
  have l: "clause_text pairs = ?l" by (simp add: pairs clause_text_pairs)
  have p: "plain_text ?l"
    using t
    by (simp only: plain_text_append categorical_literals_plain name_token_plain more_pairs_plain
          simp_thms)
  have "clean_line ?l = ?l"
    using p by (rule clean_plain_text) simp_all
  then show "clean_line (clause_text pairs) = clause_text pairs" by (simp only: l)
  show "CHR ''|'' \<notin> set (clause_text pairs)"
    using plain_text_chars(4) [OF p] unfolding l by blast
  show "CHR ''}'' \<in> set (clause_text pairs)" "startswith (clause_text pairs) ''{''"
    "endswith (clause_text pairs) ''}''"
    by (simp_all add: l startswith_def endswith_def)
qed

lemma read_forbidden_line:
  assumes "list_all (writable_hyperparameter N) hs" "writable_pairs hs pairs"
  shows "pcs_read_line N st (clause_text pairs) =
         Inr (st\<lparr>forbidden_list := forbidden_list st @ [clause_text pairs]\<rparr>)"
  using forbidden_line_shape [OF assms]
  by (simp add: pcs_body classify_def)

lemma read_forbidden_lines:
  assumes "list_all (writable_hyperparameter N) hs" "list_all (writable_pairs hs) E"
  shows "read_lines (pcs_read_line N) (map clause_text E) st =
         Inr (st\<lparr>forbidden_list := forbidden_list st @ map clause_text E\<rparr>)"
  using assms(2)
proof (induction E arbitrary: st)
  case Nil
  then show ?case by simp
next
  case (Cons pairs E)
  then show ?case
    using read_forbidden_line [OF assms(1), of pairs st] by simp
qed

lemma get_declared:
  "distinct (map name hs) \<Longrightarrow> h \<in> set hs \<Longrightarrow> hyperparameters cs = hs \<Longrightarrow>
   get_hyperparameter cs (name h) = Inr h"
proof -
  assume d: "distinct (map name hs)" and h: "h \<in> set hs" and c: "hyperparameters cs = hs"
  have "find (\<lambda>x. name x = name h) hs = Some h"
    using d h
  proof (induction hs)
    case Nil
    then show ?case by simp
  next
    case (Cons a hs)
    then show ?case by (cases "a = h") (auto simp: image_iff)
  qed
  then show ?thesis by (simp add: get_hyperparameter_def c)
qed

lemma parse_forbidden_clauses:
  assumes "list_all (writable_hyperparameter N) hs" "distinct (map name hs)"
    "list_all (writable_pairs hs) E" "hyperparameters cs = hs"
  shows "read_forbidden (map clause_text E) cs =
         Inr (cs\<lparr>forbidden_clauses :=
                  forbidden_clauses cs @
                  map (\<lambda>pairs. ForbiddenAndConjunction (map equals_of pairs)) E\<rparr>)"
  using assms(3,4)
proof (induction E arbitrary: cs)
  case Nil
  then show ?case by simp
next
  case (Cons pairs E)
  from Cons.prems(1) have wp: "writable_pairs hs pairs" and E: "list_all (writable_pairs hs) E"
    by simp_all
  note w = writable_pairs_named [OF assms(1) wp]
  obtain h v ps where pairs: "pairs = (h, v) # ps" using w(1) by (cases pairs) auto
  from w(2) have t: "name_token (name h)" "value_token v" "list_all pair_token (named ps)"
    by (simp_all add: pairs named_def pair_token_def)
  have parse: "parseString pp_forbidden_clause (clause_text pairs) =
               Some (''{'' # name h # ''='' # v # more_pair_tokens (named ps) @ [''}''])"
    using forbidden_line_tokens [OF t] by (simp add: parseString_def pairs clause_text_pairs)
  have "\<forall>(h, v)\<in>set ((h, v) # ps). get_hyperparameter cs (name h) = Inr h"
    using wp get_declared [OF assms(2) _ Cons.prems(2)]
    by (auto simp: writable_pairs_def pairs list_all_iff)
  then have triples: "forbidden_triples cs (name h # ''='' # v # more_pair_tokens (named ps) @ [''}'']) [] []
                      = Inr (map equals_of pairs)"
    using forbidden_triples_pairs [of h v ps cs "[]"] by (simp add: pairs)
  let ?cs = "add_forbidden_clause cs (ForbiddenAndConjunction (map equals_of pairs))"
  have "hyperparameters ?cs = hs" using Cons.prems(2) by (simp add: add_forbidden_clause_def)
  from Cons.IH [OF E this] parse triples show ?case
    by (simp add: add_forbidden_clause_def)
qed

lemma expand_clause_expansions: "expand_clause f = map clause_text (expansions f)"
  by (simp add: expand_clause_def expansions_def Let_def)

lemma plain_atomics_set:
  "(h, v) \<in> set (plain_atomics ds) \<Longrightarrow> ForbiddenEqualsClause h v \<in> set ds"
proof (induction ds)
  case Nil
  then show ?case by simp
next
  case (Cons d ds)
  then show ?case by (cases d) auto
qed

lemma membership_atomics_set:
  "(h, vs) \<in> set (membership_atomics ds) \<Longrightarrow> ForbiddenInClause h vs \<in> set ds"
proof (induction ds)
  case Nil
  then show ?case by simp
next
  case (Cons d ds)
  then show ?case by (cases d) auto
qed

lemma expansions_writable:
  assumes "writable_forbidden hs f"
  shows "list_all (writable_pairs hs) (expansions f)"
proof -
  let ?ds = "get_descendant_literal_clauses f"
  let ?ms = "membership_atomics ?ds"
  let ?plain = "plain_atomics ?ds"
  from assms have ne: "?ds \<noteq> []" and w: "\<forall>d\<in>set ?ds. writable_atomic hs d"
    by (simp_all add: writable_forbidden_def list_all_iff)
  have plain: "h \<in> set hs \<and> value_token v" if "(h, v) \<in> set ?plain" for h v
    using plain_atomics_set [OF that] w by fastforce
  have ms: "h \<in> set hs \<and> list_all value_token vs" if "(h, vs) \<in> set ?ms" for h vs
    using membership_atomics_set [OF that] w by fastforce
  show ?thesis
  proof (cases "?ms = []")
    case True
    have "?ds = map equals_of ?plain"
      using no_membership_all_plain [OF _ True] descendants_atomic by blast
    with ne have "?plain \<noteq> []" by auto
    with True plain show ?thesis
      by (auto simp: expansions_def Let_def writable_pairs_def list_all_iff)
  next
    case False
    have "writable_pairs hs (zip (map fst ?ms) comb @ ?plain)"
      if c: "comb \<in> set (product_lists (map snd ?ms))" for comb
    proof -
      from c have l2: "list_all2 (\<lambda>x ys. x \<in> set ys) comb (map snd ?ms)"
        by (simp add: product_lists_set)
      then have len: "length comb = length ?ms" by (auto dest: list_all2_lengthD)
      with False have ne: "zip (map fst ?ms) comb \<noteq> []"
        by (cases ?ms; cases comb) auto
      have "h \<in> set hs \<and> value_token v" if "(h, v) \<in> set (zip (map fst ?ms) comb)" for h v
      proof -
        from that obtain i where i: "i < length ?ms" "h = fst (?ms ! i)" "v = comb ! i"
          using len by (auto simp: in_set_zip)
        with l2 have "v \<in> set (snd (?ms ! i))"
          by (auto simp: list_all2_conv_all_nth len)
        moreover have "(fst (?ms ! i), snd (?ms ! i)) \<in> set ?ms"
          using i(1) by simp
        ultimately show ?thesis
          using ms [of "fst (?ms ! i)" "snd (?ms ! i)"] i(2) by (auto simp: list_all_iff)
      qed
      with plain ne show ?thesis
        by (auto simp: writable_pairs_def list_all_iff)
    qed
    with False show ?thesis
      by (auto simp: expansions_def Let_def list_all_iff)
  qed
qed

lemma map_insort_key: "map f (insort_key f x ys) = insort (f x) (map f ys)"
  by (induction ys) simp_all

lemma map_sort_key: "map f (sort_key f xs) = sort (map f xs)"
  by (induction xs) (simp_all add: map_insort_key)

lemma write_params_buffer:
  "list_all (\<lambda>h. name_token (name h)) hs \<Longrightarrow>
   write_params build hs buf = Inr (buffer_lines buf (map build hs))"
proof (induction hs arbitrary: buf)
  case Nil
  then show ?case by simp
next
  case (Cons h hs)
  then have "name_token (name h)" by simp
  from param_name_token [OF this, of "[]"]
  have "parseString pp_param_name (name h) = Some [name h]"
    by (simp add: parseString_def)
  with Cons show ?case by simp
qed

lemma split_not_Nil: "split c s \<noteq> []"
  by (induction s) (auto split: list.splits)

lemma split_line: "c \<notin> set l \<Longrightarrow> split c l = [l]"
  by (induction l) auto

lemma split_at: "c \<notin> set a \<Longrightarrow> split c (a @ c # b) = a # split c b"
  by (induction a) auto

lemma split_lines:
  "\<forall>l\<in>set ls. c \<notin> set l \<Longrightarrow> c \<notin> set l0 \<Longrightarrow>
   split c (l0 @ concat (map (\<lambda>l. c # l) ls)) = l0 # ls"
proof (induction ls arbitrary: l0)
  case Nil
  then show ?case by (simp add: split_line)
next
  case (Cons l ls)
  then have "split c (l @ concat (map (\<lambda>l. c # l) ls)) = l # ls" by simp
  with Cons.prems(2) show ?case by (simp add: split_at)
qed

lemma split_terminated:
  "\<forall>l\<in>set ls. c \<notin> set l \<Longrightarrow> split c (concat (map (\<lambda>l. l @ [c]) ls)) = ls @ [[]]"
proof (induction ls)
  case Nil
  then show ?case by simp
next
  case (Cons l ls)
  then show ?case by (simp add: split_at)
qed

lemma buffer_lines_concat:
  "buf \<noteq> [] \<Longrightarrow> buffer_lines buf ls = buf @ concat (map (\<lambda>l. CHR 0x0A # l) ls)"
  by (induction ls arbitrary: buf) simp_all

lemma split_buffer_lines:
  assumes "\<forall>l\<in>set ls. newline \<notin> set l \<and> l \<noteq> []"
  shows "split newline (buffer_lines [] ls @ newline # rest) =
         (if ls = [] then [[]] else ls) @ split newline rest"
    and "split newline (buffer_lines [] ls) = (if ls = [] then [[]] else ls)"
proof -
  show "split newline (buffer_lines [] ls) = (if ls = [] then [[]] else ls)"
  proof (cases ls)
    case Nil
    then show ?thesis by simp
  next
    case (Cons l ls')
    with assms have "l \<noteq> []" by simp
    then have "buffer_lines [] ls = l @ concat (map (\<lambda>l. CHR 0x0A # l) ls')"
      by (simp add: Cons buffer_lines_concat)
    with assms show ?thesis by (simp add: Cons split_lines)
  qed
  show "split newline (buffer_lines [] ls @ newline # rest) =
         (if ls = [] then [[]] else ls) @ split newline rest"
  proof (cases ls)
    case Nil
    then show ?thesis by simp
  next
    case (Cons l ls')
    have "split newline (l0 @ concat (map (\<lambda>l. CHR 0x0A # l) ks) @ newline # rest)
          = l0 # ks @ split newline rest"
      if "\<forall>l\<in>set ks. newline \<notin> set l" "newline \<notin> set l0" for ks l0
      using that
    proof (induction ks arbitrary: l0)
      case Nil
      then show ?case by (simp add: split_at)
    next
      case (Cons k ks)
      then have "split newline (k @ concat (map (\<lambda>l. CHR 0x0A # l) ks) @ newline # rest)
                 = k # ks @ split newline rest" by simp
      with Cons.prems(2) show ?case by (simp add: split_at)
    qed
    from this [of ls' l] assms show ?thesis by (simp add: Cons buffer_lines_concat)
  qed
qed

lemma declaration_line_shape:
  assumes "writable_hyperparameter N h"
  shows "newline \<notin> set (pcs_build_hyperparameter N h)" "pcs_build_hyperparameter N h \<noteq> []"
proof -
  have "plain_text (pcs_build_hyperparameter N h) \<and> pcs_build_hyperparameter N h \<noteq> []"
  proof (cases h)
    case (Continuous n lo hi d is_int lg q)
    with assms have q: "q = None" and n: "name_token n"
      and nt: "number_token (printed N is_int lo)" "number_token (printed N is_int hi)"
        "number_token (printed N is_int d)"
      by (simp_all add: read_back_def)
    have "(if is_int then ''integer'' else ''real'') = ''integer''
          \<or> (if is_int then ''integer'' else ''real'') = ''real''" by simp
    with n nt have "plain_text (pcs_build_continuous N n lo hi d is_int lg None)"
      unfolding continuous_text by (rule continuous_line_plain)
    moreover from n have "n \<noteq> []" by (simp add: name_token_def)
    then have "pcs_build_continuous N n lo hi d is_int lg None \<noteq> []"
      unfolding continuous_text by simp
    ultimately show ?thesis by (simp add: Continuous q)
  next
    case (Categorical n cs d)
    with assms obtain c cs' where cs: "cs = c # cs'"
      by (cases cs) simp_all
    from assms have w: "name_token n" "name_token c" "list_all name_token cs'" "d \<in> set (c # cs')"
      by (simp_all add: Categorical cs)
    then have d: "name_token d" by (auto simp: list_all_iff)
    note p = categorical_line_plain [OF w(1-3) d]
    from p(1,2) show ?thesis by (simp add: Categorical cs)
  next
    case (Constant n v)
    with assms show ?thesis by simp
  qed
  then show "newline \<notin> set (pcs_build_hyperparameter N h)" "pcs_build_hyperparameter N h \<noteq> []"
    using plain_text_chars(5) by blast+
qed

lemma clause_line_no_newline:
  assumes "list_all (writable_hyperparameter N) hs" "writable_pairs hs pairs"
  shows "newline \<notin> set (clause_text pairs)"
proof -
  note w = writable_pairs_named [OF assms]
  obtain h v ps where pairs: "pairs = (h, v) # ps" using w(1) by (cases pairs) auto
  from w(2) have t: "name_token (name h)" "name_token v" "list_all pair_token (named ps)"
    by (simp_all add: pairs named_def pair_token_def value_token_name)
  let ?l = "''{'' @ name h @ ''='' @ v @ more_pairs (named ps) @ ''}''"
  have l: "clause_text pairs = ?l" by (simp add: pairs clause_text_pairs)
  have p: "plain_text ?l"
    using t
    by (simp only: plain_text_append categorical_literals_plain name_token_plain more_pairs_plain
          simp_thms)
  show ?thesis
    using plain_text_chars(5) [OF p] unfolding l by blast
qed

lemma expansions_of_equalities:
  "expansions (ForbiddenAndConjunction (map equals_of pairs)) = [pairs]"
proof -
  have "get_descendant_literal_clauses (ForbiddenAndConjunction (map equals_of pairs))
        = map equals_of pairs"
    by (induction pairs) (auto simp: equals_of_def)
  moreover have "membership_atomics (map equals_of pairs) = []"
    by (induction pairs) (auto simp: equals_of_def)
  moreover have "plain_atomics (map equals_of pairs) = pairs"
    by (induction pairs) (auto simp: equals_of_def)
  ultimately show ?thesis by (simp add: expansions_def)
qed

lemma write_expressible_text:
  assumes "expressible N cs"
  shows "pcs_write N cs =
         Inr (buffer_lines [] (map (pcs_build_hyperparameter N) (hyperparameters cs))
              @ forbidden_block (map clause_text (concat (map expansions (forbidden_clauses cs)))))"
proof -
  from assms have "list_all (\<lambda>h. name_token (name h)) (hyperparameters cs)"
    by (auto simp: expressible_def list_all_iff dest: writable_name)
  from write_params_buffer [OF this] assms show ?thesis
    by (simp add: pcs_write_def pcs_forbidden_lines expressible_def
          expand_clause_expansions [abs_def] map_concat comp_def)
qed

lemma read_written_lines:
  assumes hs: "list_all (writable_hyperparameter N) hs" "distinct (map name hs)"
    and E: "list_all (writable_pairs hs) E"
  shows "pcs_read N ((if hs = [] then [[]] else map (pcs_build_hyperparameter N) hs)
                     @ (if E = [] then [] else [] # map clause_text E @ [[]]))
         = Inr \<lparr>hyperparameters = hs, conditions = [],
                forbidden_clauses = map (\<lambda>pairs. ForbiddenAndConjunction (map equals_of pairs)) E\<rparr>"
proof -
  let ?body = "pcs_read_line N"
  let ?cs1 = "\<lparr>hyperparameters = hs, conditions = [], forbidden_clauses = []\<rparr> :: 'a configuration_space"
  let ?st1 = "\<lparr>configuration_space = ?cs1, condition_list = [], forbidden_list = []\<rparr>"
  let ?st2 = "\<lparr>configuration_space = ?cs1, condition_list = [], forbidden_list = map clause_text E\<rparr>"
  have params: "read_lines ?body (if hs = [] then [[]] else map (pcs_build_hyperparameter N) hs)
                  read_start = Inr ?st1"
  proof (cases "hs = []")
    case True
    then show ?thesis
      by (simp add: read_blank_line read_start_def ConfigurationSpace_def)
  next
    case False
    have "set (map name hs) \<inter> set (map name (hyperparameters (configuration_space read_start))) = {}"
      by (simp add: read_start_def ConfigurationSpace_def)
    from read_param_lines [OF hs this] False show ?thesis
      by (simp add: read_start_def ConfigurationSpace_def)
  qed
  have clauses: "read_lines ?body (if E = [] then [] else [] # map clause_text E @ [[]]) ?st1
                 = Inr ?st2"
  proof (cases "E = []")
    case True
    then show ?thesis by simp
  next
    case False
    have "read_lines ?body (map clause_text E @ [[]]) ?st1 = Inr ?st2"
      unfolding read_lines_append
      using read_forbidden_lines [OF hs(1) E, of ?st1]
      by (simp add: read_blank_line)
    with False show ?thesis by (simp add: read_blank_line)
  qed
  have lines: "read_lines ?body
                 ((if hs = [] then [[]] else map (pcs_build_hyperparameter N) hs)
                  @ (if E = [] then [] else [] # map clause_text E @ [[]])) read_start = Inr ?st2"
    unfolding read_lines_append using params clauses by simp
  have "hyperparameters ?cs1 = hs" by simp
  from parse_forbidden_clauses [OF hs E this]
  have forbidden: "read_forbidden (map clause_text E) ?cs1 =
                   Inr \<lparr>hyperparameters = hs, conditions = [],
                        forbidden_clauses = map (\<lambda>pairs. ForbiddenAndConjunction (map equals_of pairs)) E\<rparr>"
    by simp
  show ?thesis
    unfolding pcs_read_def lines using forbidden by simp
qed

lemma split_written_text:
  assumes "\<forall>l\<in>set ps. newline \<notin> set l \<and> l \<noteq> []" "\<forall>l\<in>set S. newline \<notin> set l"
  shows "split newline (buffer_lines [] ps @ forbidden_block S) =
         (if ps = [] then [[]] else ps) @ (if S = [] then [] else [] # sort S @ [[]])"
proof (cases "S = []")
  case True
  then show ?thesis
    using split_buffer_lines(2) [OF assms(1)] by (simp add: forbidden_block_def)
next
  case False
  have "\<forall>l\<in>set (sort S). newline \<notin> set l" using assms(2) by simp
  from split_terminated [OF this]
  have "split newline (newline # concat (map (\<lambda>l. l @ [newline]) (sort S))) = [] # sort S @ [[]]"
    by simp
  with False show ?thesis
    using split_buffer_lines(1) [OF assms(1), of "newline # concat (map (\<lambda>l. l @ [newline]) (sort S))"]
    by (simp add: forbidden_block_def)
qed

text \<open>
  Claim C1, as amended. In the explicit dialect, let a space hold categorical and
  continuous hyperparameters under names that differ, no condition, and forbidden
  clauses with leaves on hyperparameters of the space, where the grammars read every
  written token back whole: the names and the choices as names, the values of the
  forbidden clauses as values, and the printed bounds and defaults as numbers from
  which \<^verbatim>\<open>float\<close> gives the bound or default back; a continuous hyperparameter has
  no quantization and is not a real one of the name \<^verbatim>\<open>integer\<close>. Then
  \<open>pcs_write\<close> returns a text, and \<open>pcs_read\<close> of the lines of that text, cut at
  the newlines, returns a space with the same hyperparameters in the same order, no
  condition, and the same set of forbidden combinations.
\<close>

theorem pcs_round_trip:
  assumes "expressible N cs"
  shows "\<exists>written cs'.
           pcs_write N cs = Inr written
           \<and> pcs_read N (split newline written) = Inr cs'
           \<and> hyperparameters cs' = hyperparameters cs
           \<and> conditions cs' = conditions cs
           \<and> forbidden_combinations cs' = forbidden_combinations cs"
proof -
  let ?hs = "hyperparameters cs"
  define E where "E = concat (map expansions (forbidden_clauses cs))"
  define E' where "E' = sort_key clause_text E"
  let ?ps = "map (pcs_build_hyperparameter N) ?hs"
  let ?written = "buffer_lines [] ?ps @ forbidden_block (map clause_text E)"
  let ?cs' = "\<lparr>hyperparameters = ?hs, conditions = [],
               forbidden_clauses = map (\<lambda>pairs. ForbiddenAndConjunction (map equals_of pairs)) E'\<rparr>"
  from assms have hs: "list_all (writable_hyperparameter N) ?hs" "distinct (map name ?hs)"
    and c: "conditions cs = []"
    and f: "list_all (writable_forbidden ?hs) (forbidden_clauses cs)"
    by (simp_all add: expressible_def)
  from f have E: "list_all (writable_pairs ?hs) E"
    using expansions_writable [of ?hs] by (auto simp: E_def list_all_iff)
  then have E': "list_all (writable_pairs ?hs) E'"
    by (simp add: E'_def list_all_iff)
  have w: "pcs_write N cs = Inr ?written"
    unfolding E_def by (rule write_expressible_text [OF assms])
  have p: "\<forall>l\<in>set ?ps. newline \<notin> set l \<and> l \<noteq> []"
    using hs(1) declaration_line_shape [of N] by (auto simp: list_all_iff)
  have S: "\<forall>l\<in>set (map clause_text E). newline \<notin> set l"
    using E clause_line_no_newline [OF hs(1)] by (auto simp: list_all_iff)
  have ne: "(E' = []) = (E = [])"
    unfolding E'_def by (metis length_0_conv length_sort)
  have "split newline ?written =
        (if ?hs = [] then [[]] else ?ps) @ (if E' = [] then [] else [] # map clause_text E' @ [[]])"
    unfolding split_written_text [OF p S] by (simp add: ne) (simp add: E'_def map_sort_key)
  then have r: "pcs_read N (split newline ?written) = Inr ?cs'"
    using read_written_lines [OF hs E'] by simp
  have "concat (map expansions (map (\<lambda>pairs. ForbiddenAndConjunction (map equals_of pairs)) E')) = E'"
    by (induction E') (simp_all add: expansions_of_equalities)
  then have "forbidden_combinations ?cs' = forbidden_combinations cs"
    by (simp add: forbidden_combinations_def E_def [symmetric]) (simp add: E'_def)
  with w r c show ?thesis by simp
qed

text \<open>
  A space with an integer, a real (on a logarithmic scale) and a categorical
  hyperparameter and two forbidden clauses, one with a membership atomic, with the
  values \<^verbatim>\<open>1.5\<close>, \<^verbatim>\<open>1e5\<close>, \<^verbatim>\<open>-1\<close> and \<^verbatim>\<open>+x\<close>; its text, and the space read
  from the lines of the text.
\<close>

theorem pcs_round_trip_witness:
  "expressible token_numerics mixed_space
   \<and> (\<exists>written cs'.
         pcs_write token_numerics mixed_space = Inr written
         \<and> pcs_read token_numerics (split newline written) = Inr cs'
         \<and> hyperparameters cs' = [int_x, real_y, choice_a]
         \<and> conditions cs' = []
         \<and> forbidden_combinations cs'
           = {[(''a'', ''2''), (''y'', ''1.5'')], [(''a'', ''1''), (''y'', ''1.5'')],
              [(''a'', ''1e5''), (''x'', ''-1''), (''y'', ''+x'')]})
   \<and> pcs_write token_numerics mixed_space
      = Inr (''x integer [1, 9] [5]'' @ [newline] @ ''y real [0.5, 2.5] [1.5]log'' @ [newline]
             @ ''a categorical {1, 2} [1]'' @ [newline, newline]
             @ ''{a=1, y=1.5}'' @ [newline] @ ''{a=1e5, x=-1, y=+x}'' @ [newline]
             @ ''{a=2, y=1.5}'' @ [newline])
   \<and> pcs_read token_numerics
        [''x integer [1, 9] [5]'', ''y real [0.5, 2.5] [1.5]log'', ''a categorical {1, 2} [1]'', [],
         ''{a=1, y=1.5}'', ''{a=1e5, x=-1, y=+x}'', ''{a=2, y=1.5}'', []]
      = Inr \<lparr>hyperparameters = [int_x, real_y, choice_a], conditions = [],
             forbidden_clauses =
               [ForbiddenAndConjunction
                  [ForbiddenEqualsClause choice_a ''1'', ForbiddenEqualsClause real_y ''1.5''],
                ForbiddenAndConjunction
                  [ForbiddenEqualsClause choice_a ''1e5'', ForbiddenEqualsClause int_x ''-1'',
                   ForbiddenEqualsClause real_y ''+x''],
                ForbiddenAndConjunction
                  [ForbiddenEqualsClause choice_a ''2'', ForbiddenEqualsClause real_y ''1.5'']]\<rparr>"
proof -
  have e: "expressible token_numerics mixed_space" by code_simp
  have f: "forbidden_combinations mixed_space
           = {[(''a'', ''2''), (''y'', ''1.5'')], [(''a'', ''1''), (''y'', ''1.5'')],
              [(''a'', ''1e5''), (''x'', ''-1''), (''y'', ''+x'')]}"
    by (auto simp: forbidden_combinations_def expansions_def named_def Let_def)
  have w: "pcs_write token_numerics mixed_space
      = Inr (''x integer [1, 9] [5]'' @ [newline] @ ''y real [0.5, 2.5] [1.5]log'' @ [newline]
             @ ''a categorical {1, 2} [1]'' @ [newline, newline]
             @ ''{a=1, y=1.5}'' @ [newline] @ ''{a=1e5, x=-1, y=+x}'' @ [newline]
             @ ''{a=2, y=1.5}'' @ [newline])"
    by code_simp
  have r: "pcs_read token_numerics
        [''x integer [1, 9] [5]'', ''y real [0.5, 2.5] [1.5]log'', ''a categorical {1, 2} [1]'', [],
         ''{a=1, y=1.5}'', ''{a=1e5, x=-1, y=+x}'', ''{a=2, y=1.5}'', []]
      = Inr \<lparr>hyperparameters = [int_x, real_y, choice_a], conditions = [],
             forbidden_clauses =
               [ForbiddenAndConjunction
                  [ForbiddenEqualsClause choice_a ''1'', ForbiddenEqualsClause real_y ''1.5''],
                ForbiddenAndConjunction
                  [ForbiddenEqualsClause choice_a ''1e5'', ForbiddenEqualsClause int_x ''-1'',
                   ForbiddenEqualsClause real_y ''+x''],
                ForbiddenAndConjunction
                  [ForbiddenEqualsClause choice_a ''2'', ForbiddenEqualsClause real_y ''1.5'']]\<rparr>"
    by code_simp
  from pcs_round_trip [OF e] f
  have "\<exists>written cs'.
         pcs_write token_numerics mixed_space = Inr written
         \<and> pcs_read token_numerics (split newline written) = Inr cs'
         \<and> hyperparameters cs' = [int_x, real_y, choice_a]
         \<and> conditions cs' = []
         \<and> forbidden_combinations cs'
           = {[(''a'', ''2''), (''y'', ''1.5'')], [(''a'', ''1''), (''y'', ''1.5'')],
              [(''a'', ''1e5''), (''x'', ''-1''), (''y'', ''+x'')]}"
    by simp
  with e w r show ?thesis by (intro conjI)
qed

text \<open>
  The claim as it stands is for every space that a dialect expresses, in both dialects.
  In the compact dialect the declaration written for one categorical hyperparameter
  holds none of \<^verbatim>\<open>|\<close>, \<^verbatim>\<open>}\<close> and \<^verbatim>\<open>]\<close>, so the read skips it and returns
  the empty space. In the explicit dialect a condition is written as
  \<^verbatim>\<open>b | a {1}\<close> and a constant as \<^verbatim>\<open>a {x} [x]\<close>, which the grammars of the
  read refuse; a quantization is written as a prefix of the name and read as part of
  it; and a real hyperparameter of the name \<^verbatim>\<open>integer\<close> is read as an integer one.
\<close>

theorem round_trip_counterexample:
  "irace_write no_numerics \<lparr>hyperparameters = [cat_a], conditions = [], forbidden_clauses = []\<rparr>
     = Inr (''a '' @ [CHR 0x27] @ ''--a '' @ [CHR 0x27] @ '' c (1,2)'' @ [newline])
   \<and> irace_read no_numerics
        (split newline (''a '' @ [CHR 0x27] @ ''--a '' @ [CHR 0x27] @ '' c (1,2)'' @ [newline]))
     = Inr \<lparr>hyperparameters = [], conditions = [], forbidden_clauses = []\<rparr>
   \<and> pcs_write no_numerics
        \<lparr>hyperparameters = [cat_a, cat_b], conditions = [b_if_a_is_1], forbidden_clauses = []\<rparr>
     = Inr (''a categorical {1, 2} [1]'' @ [newline] @ ''b categorical {3} [3]'' @ [newline, newline]
            @ ''b | a {1}'')
   \<and> pcs_read no_numerics
        (split newline (''a categorical {1, 2} [1]'' @ [newline] @ ''b categorical {3} [3]''
                        @ [newline, newline] @ ''b | a {1}''))
     = Inl (UnparsableConditionError ''b | a {1}'')
   \<and> pcs_write no_numerics
        \<lparr>hyperparameters = [Constant ''a'' ''x''], conditions = [], forbidden_clauses = []\<rparr>
     = Inr ''a {x} [x]''
   \<and> pcs_read no_numerics (split newline ''a {x} [x]'') = Inl (UnparsableParameterError ''a {x} [x]'')
   \<and> pcs_write token_numerics
        \<lparr>hyperparameters = [Continuous ''x'' ''1'' ''9'' ''5'' True False (Some ''2'')],
         conditions = [], forbidden_clauses = []\<rparr>
     = Inr ''Q2_x integer [1, 9] [5]''
   \<and> pcs_read token_numerics (split newline ''Q2_x integer [1, 9] [5]'')
     = Inr \<lparr>hyperparameters = [Continuous ''Q2_x'' ''1'' ''9'' ''5'' True False None],
            conditions = [], forbidden_clauses = []\<rparr>
   \<and> pcs_write token_numerics
        \<lparr>hyperparameters = [Continuous ''integer'' ''0.5'' ''2.5'' ''1.5'' False False None],
         conditions = [], forbidden_clauses = []\<rparr>
     = Inr ''integer real [0.5, 2.5] [1.5]''
   \<and> pcs_read token_numerics (split newline ''integer real [0.5, 2.5] [1.5]'')
     = Inr \<lparr>hyperparameters = [Continuous ''integer'' ''0.5'' ''2.5'' ''1.5'' True False None],
            conditions = [], forbidden_clauses = []\<rparr>"
  by code_simp

end
